theory Spec2Isabelle
  imports Main "HOL-Library.Word"
begin

section \<open>Strings\<close>

text \<open>
  A JavaScript string is a sequence of UTF-16 code units. The regular expressions of
  \<^verbatim>\<open>app.ts\<close> carry no \<^verbatim>\<open>u\<close> flag, so they work on code units, and so does
  \<^verbatim>\<open>String.prototype.includes\<close>. A value that may be \<^verbatim>\<open>null\<close> or
  \<^verbatim>\<open>undefined\<close> at run time (a GitHub body) is a \<open>jsstring option\<close>.
\<close>

type_synonym jschar = "16 word"
type_synonym jsstring = "jschar list"

definition js :: "string \<Rightarrow> jsstring" where
  \<comment> \<open>an ASCII literal of the source as code units\<close>
  "js s = map of_char s"

primrec startsWith :: "jsstring \<Rightarrow> jsstring \<Rightarrow> bool" where
  "startsWith t [] = True"
| "startsWith t (w # ws) = (case t of [] \<Rightarrow> False | c # cs \<Rightarrow> c = w \<and> startsWith cs ws)"

fun js_includes :: "jsstring \<Rightarrow> jsstring \<Rightarrow> bool" where
  \<comment> \<open>\<^verbatim>\<open>t.includes(w)\<close>: \<open>w\<close> occurs in \<open>t\<close> at some position\<close>
  "js_includes [] w = (w = [])"
| "js_includes (c # cs) w = (startsWith (c # cs) w \<or> js_includes cs w)"

definition truthy :: "jsstring option \<Rightarrow> bool" where
  \<comment> \<open>\<^verbatim>\<open>!text\<close> holds of \<^verbatim>\<open>null\<close>, \<^verbatim>\<open>undefined\<close> and \<^verbatim>\<open>""\<close>, and of no other string\<close>
  "truthy text = (case text of None \<Rightarrow> False | Some t \<Rightarrow> t \<noteq> [])"

section \<open>Text Normalizer\<close>

definition words :: "jsstring list" where
  "words = [js ''/start'', js ''/stop'',
     js ''- Be sure to open a draft pull request as soon as possible to communicate updates on your progress.'',
     js ''- Be sure to provide timely updates to us when requested, or you will be automatically unassigned from the task.'']"

definition removeSpecificWords :: "jsstring \<Rightarrow> jsstring" where
  "removeSpecificWords text = (if list_ex (\<lambda>word. js_includes text word) words then [] else text)"

definition isPrintableAscii :: "jschar \<Rightarrow> bool" where
  \<comment> \<open>the range \<^verbatim>\<open>\x20-\x7E\<close>\<close>
  "isPrintableAscii c = (0x20 \<le> c \<and> c \<le> 0x7E)"

definition isWhiteSpace :: "jschar \<Rightarrow> bool" where
  \<comment> \<open>the class \<^verbatim>\<open>\s\<close> of ECMAScript: WhiteSpace and LineTerminator\<close>
  "isWhiteSpace c = (c = 0x09 \<or> c = 0x0A \<or> c = 0x0B \<or> c = 0x0C \<or> c = 0x0D \<or> c = 0x20
     \<or> c = 0xA0 \<or> c = 0x1680 \<or> (0x2000 \<le> c \<and> c \<le> 0x200A) \<or> c = 0x2028 \<or> c = 0x2029
     \<or> c = 0x202F \<or> c = 0x205F \<or> c = 0x3000 \<or> c = 0xFEFF)"

definition dquote :: jschar where
  "dquote = 0x22"

primrec replaceClass :: "(jschar \<Rightarrow> bool) \<Rightarrow> jsstring \<Rightarrow> jsstring \<Rightarrow> jsstring" where
  \<comment> \<open>\<^verbatim>\<open>text.replace(/[class]/g, rep)\<close>: every code unit of the class becomes \<open>rep\<close>\<close>
  "replaceClass cls rep [] = []"
| "replaceClass cls rep (c # cs) = (if cls c then rep else [c]) @ replaceClass cls rep cs"

definition cleanText :: "jsstring option \<Rightarrow> jsstring" where
  "cleanText text =
     (case text of
        None \<Rightarrow> []
      | Some t \<Rightarrow>
          if t = [] then []
          else
            let t1 = replaceClass (\<lambda>c. \<not> (isPrintableAscii c \<or> isWhiteSpace c)) [] t;
                t2 = replaceClass (\<lambda>c. c = dquote) [dquote, dquote] t1
            in t2)"

fun undouble :: "jsstring \<Rightarrow> jsstring" where
  \<comment> \<open>reads a text back in which every double quote was written twice\<close>
  "undouble (c # d # cs) =
     (if c = dquote \<and> d = dquote then dquote # undouble cs else c # undouble (d # cs))"
| "undouble cs = cs"

definition lt_sign :: jschar where
  "lt_sign = 0x3C"

definition gt_sign :: jschar where
  "gt_sign = 0x3E"

function stripTags :: "jsstring \<Rightarrow> jsstring" where
  \<comment> \<open>\<^verbatim>\<open>html.replace(/<[^>]+>/g, '')\<close>: a match starts at a \<^verbatim>\<open><\<close>, takes the longest
      run of code units other than \<^verbatim>\<open>>\<close>, which must not be empty, and the \<^verbatim>\<open>>\<close>
      after it; the search goes on behind the match\<close>
  "stripTags [] = []"
| "stripTags (c # cs) =
     (if c = lt_sign \<and> takeWhile (\<lambda>x. x \<noteq> gt_sign) cs \<noteq> [] \<and> dropWhile (\<lambda>x. x \<noteq> gt_sign) cs \<noteq> []
      then stripTags (tl (dropWhile (\<lambda>x. x \<noteq> gt_sign) cs))
      else c # stripTags cs)"
  by pat_completeness auto
termination
proof (relation "measure length")
  show "wf (measure length)"
    by simp
next
  fix c :: jschar and cs :: jsstring
  have "length (tl (dropWhile (\<lambda>x. x \<noteq> gt_sign) cs)) \<le> length cs"
    using length_dropWhile_le [of "\<lambda>x. x \<noteq> gt_sign" cs] by simp
  then show "(tl (dropWhile (\<lambda>x. x \<noteq> gt_sign) cs), c # cs) \<in> measure length"
    by simp
next
  fix c :: jschar and cs :: jsstring
  show "(cs, c # cs) \<in> measure length"
    by simp
qed

primrec join :: "jsstring \<Rightarrow> jsstring list \<Rightarrow> jsstring" where
  \<comment> \<open>\<^verbatim>\<open>Array.prototype.join\<close> on the rendered elements\<close>
  "join sep [] = []"
| "join sep (x # xs) = (if xs = [] then x else x @ sep @ join sep xs)"

definition formatEmbedding :: "('n \<Rightarrow> jsstring) \<Rightarrow> 'n list \<Rightarrow> jsstring" where
  \<comment> \<open>the first argument renders one number (\<^verbatim>\<open>Number.prototype.toString\<close>)\<close>
  "formatEmbedding numberToString embedding =
     js ''['' @ join (js '', '') (map numberToString embedding) @ js '']''"

fun dec :: "nat \<Rightarrow> jsstring" where
  \<comment> \<open>the decimal digits of a natural number, as the template literal writes it\<close>
  "dec n = (if n < 10 then [of_nat (48 + n)] else dec (n div 10) @ [of_nat (48 + n mod 10)])"

fun split :: "jschar \<Rightarrow> jsstring \<Rightarrow> jsstring list" where
  \<comment> \<open>\<^verbatim>\<open>s.split(sep)\<close> for a separator of one code unit\<close>
  "split sep [] = [[]]"
| "split sep (c # cs) =
     (if c = sep then [] # split sep cs
      else (case split sep cs of [] \<Rightarrow> [[c]] | p # ps \<Rightarrow> (c # p) # ps))"

definition repoOwnerName :: "jsstring \<Rightarrow> jsstring option \<times> jsstring option" where
  \<comment> \<open>\<^verbatim>\<open>const [repoOwner, repoName] = url.split('/').slice(-2)\<close>; a missing element is
      \<^verbatim>\<open>undefined\<close>\<close>
  "repoOwnerName url =
     (let parts = split 0x2F url; last2 = drop (length parts - 2) parts
      in (case last2 of
            [] \<Rightarrow> (None, None)
          | [a] \<Rightarrow> (Some a, None)
          | a # b # _ \<Rightarrow> (Some a, Some b)))"

section \<open>Data model\<close>

text \<open>
  The objects of the program are untyped (\<^verbatim>\<open>any\<close>); the records below hold the fields
  that the code reads. A response of the REST interface that the code stores without
  looking into it is kept as its JSON text. The numbers of an embedding vector are of an
  arbitrary type \<open>'n\<close>.
\<close>

datatype error = Error jsstring

type_synonym json = jsstring

record issueData =
  number :: nat
  node_id :: jsstring
  body :: "jsstring option"
  userLogin :: jsstring
  repository_url :: jsstring
  html_url :: jsstring

record restComment =
  comment_id :: nat
  comment_node_id :: jsstring
  comment_body :: "jsstring option"
  comment_login :: jsstring

record pullRequest =
  pr_number :: nat
  pr_node_id :: jsstring
  pr_body :: "jsstring option"
  pr_html_url :: jsstring
  pr_repo_name :: jsstring

record gqlComment =
  gc_id :: jsstring
  gc_body :: "jsstring option"
  gc_login :: jsstring

record gqlNode =
  gql_title :: "jsstring option"
  gql_id :: jsstring
  gql_body :: "jsstring option"
  gql_login :: jsstring
  gql_comments :: "gqlComment list"
  gql_reviewThreads :: "gqlComment list list"

record prPayload =
  pp_title :: "jsstring option"
  pp_body :: "jsstring option"
  pp_owner :: jsstring
  pp_repo :: jsstring
  pp_number :: nat
  pp_url :: jsstring

datatype payload = RestPayload json | PrPayload prPayload

text \<open>A Conversation Item: one element of the array that the Fetcher builds.\<close>

record item =
  item_id :: jsstring
  item_text :: "jsstring option"
  item_issue_id :: jsstring
  item_userLogin :: jsstring
  item_payload :: payload

text \<open>An Enriched Entry: the object \<^verbatim>\<open>entry\<close> of \<^verbatim>\<open>processIssues\<close>.\<close>

record 'n entry =
  entry_id :: jsstring
  plaintext :: jsstring
  embedding :: "'n list"
  author_id :: int
  created_at :: jsstring
  modified_at :: jsstring
  markdown :: jsstring
  entry_issue_id :: jsstring
  entry_payload :: payload

text \<open>
  The response of the embedding service: \<^verbatim>\<open>response.data\<close> may be missing, and so may
  an element of it or the \<^verbatim>\<open>embedding\<close> of an element.
\<close>

type_synonym 'n embedResponse = "'n list option list option"

text \<open>Lines of the console, by kind.\<close>

datatype log =
    Processing nat
  | Skipping nat
  | ErrorFetchingAuthorId jsstring error
  | SavedIssues jsstring
  | SavedComments jsstring

section \<open>External collaborators\<close>

text \<open>
  The environment of a run answers the external calls: an \<open>Inl\<close> is a rejected promise
  (an exception at the \<^verbatim>\<open>await\<close>). \<open>users_get\<close> is the \<^verbatim>\<open>id\<close> of the REST user
  lookup, and its \<open>Inl\<close> any exception inside the \<^verbatim>\<open>try\<close> block of
  \<^verbatim>\<open>fetchAuthorId\<close>; \<open>graphql_node\<close> is the node of the GraphQL query, and \<open>now\<close> the
  time that the \<open>k\<close>-th \<^verbatim>\<open>new Date()\<close> of the run reads. The objects that the
  responses hold are taken to have the fields that the code reads (an author, a user).

  \<open>resolved\<close> is the order in which the REST calls that \<^verbatim>\<open>fetchAllRelatedData\<close> starts
  for the issue comments complete. The callback of \<^verbatim>\<open>issueComments.forEach\<close> is
  \<^verbatim>\<open>async\<close> and \<^verbatim>\<open>forEach\<close> does not wait for it: each call runs up to its
  \<^verbatim>\<open>await fetchPayloadComment\<close> and appends its element to \<^verbatim>\<open>allData\<close> only when that
  request completes, while the caller is suspended at a later \<^verbatim>\<open>await\<close> of its own.
  \<open>resolved env n k\<close> lists, for the issue with number \<open>n\<close>, the indices of the comments
  whose request completes during the \<open>k\<close>-th such suspension, in the order of completion:
  \<open>k = 0\<close> is \<^verbatim>\<open>await this.fetchAssociatedPRs()\<close>, \<open>k = j\<close> is
  \<^verbatim>\<open>await this.fetchPrData(pr)\<close> for the \<open>j\<close>-th of the \<open>n\<close> associated pull
  requests, and \<open>k = n + 1\<close> is the time after \<^verbatim>\<open>fetchAllRelatedData\<close> has returned
  while \<^verbatim>\<open>processIssues\<close> still iterates over the array. A comment that is in no
  list completes later than that, or never.
\<close>

record 'n env =
  marked :: "jsstring \<Rightarrow> jsstring"
  vo_embed :: "jsstring \<Rightarrow> error + 'n embedResponse"
  users_get :: "jsstring \<Rightarrow> error + int"
  issues_get :: "jsstring option \<Rightarrow> jsstring option \<Rightarrow> nat \<Rightarrow> error + json"
  issues_getComment :: "jsstring option \<Rightarrow> jsstring option \<Rightarrow> nat \<Rightarrow> error + json"
  issues_listComments :: "jsstring option \<Rightarrow> jsstring option \<Rightarrow> nat \<Rightarrow> error + restComment list"
  pulls_list :: "jsstring option \<Rightarrow> jsstring option \<Rightarrow> error + pullRequest list"
  graphql_node :: "jsstring \<Rightarrow> error + gqlNode"
  resolved :: "nat \<Rightarrow> nat \<Rightarrow> nat list"
  now :: "nat \<Rightarrow> jsstring"
  stringify :: "payload \<Rightarrow> jsstring"
  numberToString :: "'n \<Rightarrow> jsstring"

definition cleanMarkdown :: "'n env \<Rightarrow> jsstring option \<Rightarrow> jsstring" where
  "cleanMarkdown env text =
     (case text of
        None \<Rightarrow> []
      | Some t \<Rightarrow> if t = [] then [] else stripTags (marked env t))"

definition extractEmbeddings :: "'n env \<Rightarrow> jsstring \<Rightarrow> error + 'n list" where
  \<comment> \<open>\<^verbatim>\<open>(response.data && response.data[0]?.embedding) || []\<close>; an array is truthy\<close>
  "extractEmbeddings env text =
     (case vo_embed env text of
        Inl e \<Rightarrow> Inl e
      | Inr response \<Rightarrow>
          Inr (case response of
                 None \<Rightarrow> []
               | Some [] \<Rightarrow> []
               | Some (None # _) \<Rightarrow> []
               | Some (Some v # _) \<Rightarrow> v))"

definition fetchAuthorId :: "'n env \<Rightarrow> jsstring \<Rightarrow> log list \<Rightarrow> int \<times> log list" where
  \<comment> \<open>takes the console and gives it back with the result\<close>
  "fetchAuthorId env login con =
     (case users_get env login of
        Inr i \<Rightarrow> (i, con)
      | Inl err \<Rightarrow> (- 1, con @ [ErrorFetchingAuthorId login err]))"

section \<open>GitHub Data Fetcher\<close>

definition fetchIssueComments :: "'n env \<Rightarrow> issueData \<Rightarrow> error + restComment list" where
  "fetchIssueComments env issue =
     (case repoOwnerName (repository_url issue) of
        (repoOwner, repoName) \<Rightarrow> issues_listComments env repoOwner repoName (number issue))"

definition fetchAssociatedPRs :: "'n env \<Rightarrow> issueData \<Rightarrow> error + pullRequest list" where
  "fetchAssociatedPRs env issue =
     (case repoOwnerName (repository_url issue) of
        (repoOwner, repoName) \<Rightarrow>
          (case pulls_list env repoOwner repoName of
             Inl e \<Rightarrow> Inl e
           | Inr prs \<Rightarrow>
               Inr (filter (\<lambda>pr. truthy (pr_body pr)
                      \<and> (js_includes (the (pr_body pr)) (js ''#'' @ dec (number issue))
                         \<or> js_includes (the (pr_body pr)) (html_url issue))) prs)))"

definition pushEach :: "('a \<Rightarrow> item) \<Rightarrow> 'a list \<Rightarrow> item list \<Rightarrow> item list" where
  \<comment> \<open>\<^verbatim>\<open>xs.forEach(x => arr.push(f(x)))\<close> with a callback that does not suspend\<close>
  "pushEach f xs arr = foldl (\<lambda>a x. a @ [f x]) arr xs"

definition fetchPrData :: "'n env \<Rightarrow> issueData \<Rightarrow> pullRequest \<Rightarrow> error + item list" where
  \<comment> \<open>the callbacks of both \<^verbatim>\<open>forEach\<close> loops are \<^verbatim>\<open>async\<close> but hold no \<^verbatim>\<open>await\<close>,
      so each runs to its end when it is called\<close>
  "fetchPrData env issue pr =
     (case graphql_node env (pr_node_id pr) of
        Inl e \<Rightarrow> Inl e
      | Inr graphqlData \<Rightarrow>
          let pl = PrPayload \<lparr>pp_title = gql_title graphqlData, pp_body = gql_body graphqlData,
                     pp_owner = gql_login graphqlData, pp_repo = pr_repo_name pr,
                     pp_number = pr_number pr, pp_url = pr_html_url pr\<rparr>;
              ofComment = (\<lambda>comment. \<lparr>item_id = gc_id comment, item_text = gc_body comment,
                     item_issue_id = node_id issue, item_userLogin = gc_login comment,
                     item_payload = pl\<rparr>);
              prData = [\<lparr>item_id = gql_id graphqlData, item_text = gql_body graphqlData,
                     item_issue_id = node_id issue, item_userLogin = gql_login graphqlData,
                     item_payload = pl\<rparr>];
              prData = pushEach ofComment (gql_comments graphqlData) prData;
              prData = foldl (\<lambda>a thread. pushEach ofComment thread a) prData
                     (gql_reviewThreads graphqlData)
          in Inr prData)"

definition commentPush :: "'n env \<Rightarrow> issueData \<Rightarrow> restComment \<Rightarrow> item list" where
  \<comment> \<open>what one callback of \<^verbatim>\<open>issueComments.forEach\<close> appends once its request has
      completed: one element, or nothing when the request was rejected (nothing awaits the
      callback, so its rejection reaches no caller). The run is taken to go on after such
      a rejection, as under a runtime that only warns of an unhandled rejection; a runtime
      that ends the process on it (the default of Node.js from version 15) writes no
      file then, which this model does not show\<close>
  "commentPush env issue comment =
     (case repoOwnerName (repository_url issue) of
        (repoOwner, repoName) \<Rightarrow>
          (case issues_getComment env repoOwner repoName (comment_id comment) of
             Inl e \<Rightarrow> []
           | Inr payload \<Rightarrow>
               [\<lparr>item_id = comment_node_id comment, item_text = comment_body comment,
                 item_issue_id = node_id issue, item_userLogin = comment_login comment,
                 item_payload = RestPayload payload\<rparr>]))"

definition pushesAt :: "'n env \<Rightarrow> issueData \<Rightarrow> restComment list \<Rightarrow> nat \<Rightarrow> item list" where
  \<comment> \<open>the elements that the pending callbacks append during the \<open>k\<close>-th suspension\<close>
  "pushesAt env issue issueComments k =
     concat (map (\<lambda>i. if i < length issueComments then commentPush env issue (issueComments ! i) else [])
       (resolved env (number issue) k))"

fun fetchPrLoop ::
  "'n env \<Rightarrow> issueData \<Rightarrow> restComment list \<Rightarrow> nat \<Rightarrow> pullRequest list \<Rightarrow> item list \<Rightarrow> error + item list"
where
  \<comment> \<open>\<^verbatim>\<open>for (const pr of associatedPRs) allData.push(...await this.fetchPrData(pr))\<close>,
      with the number \<open>k\<close> of the suspension\<close>
  "fetchPrLoop env issue issueComments k [] allData = Inr allData"
| "fetchPrLoop env issue issueComments k (pr # prs) allData =
     (case fetchPrData env issue pr of
        Inl e \<Rightarrow> Inl e
      | Inr prData \<Rightarrow>
          fetchPrLoop env issue issueComments (Suc k) prs
            (allData @ pushesAt env issue issueComments k @ prData))"

definition fetchAllRelatedData :: "'n env \<Rightarrow> issueData \<Rightarrow> error + item list \<times> item list" where
  \<comment> \<open>the result is the array as it is when the function returns, and the elements that
      the pending callbacks append to the same array afterwards, while the caller iterates\<close>
  "fetchAllRelatedData env issue =
     (case repoOwnerName (repository_url issue) of
        (repoOwner, repoName) \<Rightarrow>
          (case issues_get env repoOwner repoName (number issue) of
             Inl e \<Rightarrow> Inl e
           | Inr payload \<Rightarrow>
               let allData = [\<lparr>item_id = node_id issue, item_text = body issue,
                      item_issue_id = node_id issue, item_userLogin = userLogin issue,
                      item_payload = RestPayload payload\<rparr>]
               in (case fetchIssueComments env issue of
                     Inl e \<Rightarrow> Inl e
                   | Inr issueComments \<Rightarrow>
                       (case fetchAssociatedPRs env issue of
                          Inl e \<Rightarrow> Inl e
                        | Inr associatedPRs \<Rightarrow>
                            (case fetchPrLoop env issue issueComments 1 associatedPRs
                                    (allData @ pushesAt env issue issueComments 0) of
                               Inl e \<Rightarrow> Inl e
                             | Inr allData' \<Rightarrow>
                                 Inr (allData',
                                   pushesAt env issue issueComments (Suc (length associatedPRs))))))))"

section \<open>Deduplicating Aggregator and Tabular Writer\<close>

record 'n state =
  issueDataList :: "'n entry list"
  commentDataList :: "'n entry list"
  issueIds :: "jsstring set"
  commentIds :: "jsstring set"
  console :: "log list"
  ticks :: nat

definition initial :: "'n state" where
  "initial = \<lparr>issueDataList = [], commentDataList = [], issueIds = {}, commentIds = {},
     console = [], ticks = 0\<rparr>"

definition hasMarker :: "jsstring \<Rightarrow> bool" where
  \<comment> \<open>\<^verbatim>\<open>id.includes("PR") || id.includes("IC")\<close>\<close>
  "hasMarker i = (js_includes i (js ''PR'') \<or> js_includes i (js ''IC''))"

definition buildEntry ::
  "'n env \<Rightarrow> issueData \<Rightarrow> 'n state \<Rightarrow> item \<Rightarrow> error + 'n entry \<times> 'n state"
where
  \<comment> \<open>the first half of the body of the inner loop, up to the object \<^verbatim>\<open>entry\<close>; the
      state counts the two readings of the clock and holds the console\<close>
  "buildEntry env issue st item =
     (let cleanedText = cleanMarkdown env (item_text item)
      in (case extractEmbeddings env cleanedText of
            Inl e \<Rightarrow> Inl e
          | Inr vector \<Rightarrow>
              (case fetchAuthorId env (item_userLogin item) (console st) of
                 (authorId, con) \<Rightarrow>
                   Inr (\<lparr>entry_id = item_id item,
                         plaintext = cleanText (Some cleanedText),
                         embedding = vector,
                         author_id = authorId,
                         created_at = now env (ticks st),
                         modified_at = now env (Suc (ticks st)),
                         markdown = cleanText (item_text item),
                         entry_issue_id = node_id issue,
                         entry_payload = item_payload item\<rparr>,
                        st\<lparr>console := con, ticks := Suc (Suc (ticks st))\<rparr>))))"

definition route :: "'n state \<Rightarrow> item \<Rightarrow> 'n entry \<Rightarrow> 'n state" where
  \<comment> \<open>the second half: the choice of the table and the check of the set of seen ids\<close>
  "route st item entry =
     (if hasMarker (item_id item) then
        (if item_id item \<notin> commentIds st
         then st\<lparr>commentDataList := commentDataList st @ [entry],
                commentIds := insert (item_id item) (commentIds st)\<rparr>
         else st)
      else
        (if item_id item \<notin> issueIds st
         then st\<lparr>issueDataList := issueDataList st @ [entry],
                issueIds := insert (item_id item) (issueIds st)\<rparr>
         else st))"

definition processItem :: "'n env \<Rightarrow> issueData \<Rightarrow> 'n state \<Rightarrow> item \<Rightarrow> error + 'n state" where
  "processItem env issue st item =
     (case buildEntry env issue st item of
        Inl e \<Rightarrow> Inl e
      | Inr (entry, st') \<Rightarrow> Inr (route st' item entry))"

fun processItems :: "'n env \<Rightarrow> issueData \<Rightarrow> 'n state \<Rightarrow> item list \<Rightarrow> error + 'n state" where
  \<comment> \<open>\<^verbatim>\<open>for (const item of allRelatedData)\<close>\<close>
  "processItems env issue st [] = Inr st"
| "processItems env issue st (item # items) =
     (case processItem env issue st item of
        Inl e \<Rightarrow> Inl e
      | Inr st' \<Rightarrow> processItems env issue st' items)"

definition processIssue :: "'n env \<Rightarrow> 'n state \<Rightarrow> issueData \<Rightarrow> error + 'n state" where
  \<comment> \<open>the body of the outer loop; the iteration sees the array and what is appended to it
      before the iteration ends\<close>
  "processIssue env st issue =
     (let st1 = st\<lparr>console := console st @ [Processing (number issue)]\<rparr>
      in if \<not> truthy (body issue)
         then Inr (st1\<lparr>console := console st1 @ [Skipping (number issue)]\<rparr>)
         else (case fetchAllRelatedData env issue of
                 Inl e \<Rightarrow> Inl e
               | Inr (allRelatedData, appended) \<Rightarrow>
                   processItems env issue st1 (allRelatedData @ appended)))"

fun processLoop :: "'n env \<Rightarrow> 'n state \<Rightarrow> issueData list \<Rightarrow> error + 'n state" where
  \<comment> \<open>\<^verbatim>\<open>for (const issueData of data)\<close>\<close>
  "processLoop env st [] = Inr st"
| "processLoop env st (issue # data) =
     (case processIssue env st issue of
        Inl e \<Rightarrow> Inl e
      | Inr st' \<Rightarrow> processLoop env st' data)"

record issueRow =
  ir_id :: jsstring
  ir_plaintext :: jsstring
  ir_embedding :: jsstring
  ir_payload :: jsstring
  ir_author_id :: int
  ir_created_at :: jsstring
  ir_modified_at :: jsstring
  ir_markdown :: jsstring

record commentRow =
  cr_id :: jsstring
  cr_plaintext :: jsstring
  cr_markdown :: jsstring
  cr_embedding :: jsstring
  cr_payload :: jsstring
  cr_author_id :: int
  cr_created_at :: jsstring
  cr_modified_at :: jsstring
  cr_issue_id :: jsstring

definition saveIssuesToCsv :: "'n env \<Rightarrow> 'n entry list \<Rightarrow> issueRow list" where
  \<comment> \<open>the rows handed to the CSV library, in the order of the table\<close>
  "saveIssuesToCsv env allData =
     map (\<lambda>item. \<lparr>ir_id = entry_id item, ir_plaintext = plaintext item,
            ir_embedding = formatEmbedding (numberToString env) (embedding item),
            ir_payload = stringify env (entry_payload item),
            ir_author_id = author_id item, ir_created_at = created_at item,
            ir_modified_at = modified_at item, ir_markdown = markdown item\<rparr>) allData"

definition saveCommentsToCsv :: "'n env \<Rightarrow> 'n entry list \<Rightarrow> commentRow list" where
  "saveCommentsToCsv env allData =
     map (\<lambda>item. \<lparr>cr_id = entry_id item, cr_plaintext = plaintext item,
            cr_markdown = markdown item,
            cr_embedding = formatEmbedding (numberToString env) (embedding item),
            cr_payload = stringify env (entry_payload item),
            cr_author_id = author_id item, cr_created_at = created_at item,
            cr_modified_at = modified_at item, cr_issue_id = entry_issue_id item\<rparr>) allData"

record files =
  issues_data_csv :: "issueRow list"
  comments_data_csv :: "commentRow list"
  stdout :: "log list"

definition processIssues :: "'n env \<Rightarrow> issueData list \<Rightarrow> error + files" where
  \<comment> \<open>\<open>data\<close> is the content of \<^verbatim>\<open>devpool-issues.json\<close>; an \<open>Inl\<close> is the rejection that
      the last line of the program catches, and then no file is written. The two lines
      that report the saved files are printed by the \<^verbatim>\<open>finish\<close> handlers of the two
      streams, in the order in which the streams finish; \<open>stdout\<close> fixes the order of the
      two calls\<close>
  "processIssues env data =
     (case processLoop env initial data of
        Inl e \<Rightarrow> Inl e
      | Inr st \<Rightarrow>
          Inr \<lparr>issues_data_csv = saveIssuesToCsv env (issueDataList st),
               comments_data_csv = saveCommentsToCsv env (commentDataList st),
               stdout = console st @ [SavedIssues (js ''issues_data.csv''),
                                      SavedComments (js ''comments_data.csv'')]\<rparr>)"

section \<open>Predicates of the specification\<close>

text \<open>
  The Conversation Items of a run are what the inner loop of \<^verbatim>\<open>processIssues\<close> iterates
  over, for the seed issues that are not skipped. An identifier is seen in a state when
  it is in the set of the table that its type marker selects.
\<close>

definition seen :: "'n state \<Rightarrow> jsstring \<Rightarrow> bool" where
  "seen st i = (if hasMarker i then i \<in> commentIds st else i \<in> issueIds st)"

definition tablesOk :: "'n state \<Rightarrow> bool" where
  "tablesOk st =
     (issueIds st = entry_id ` set (issueDataList st)
      \<and> commentIds st = entry_id ` set (commentDataList st)
      \<and> list_all (\<lambda>e. \<not> hasMarker (entry_id e)) (issueDataList st)
      \<and> list_all (\<lambda>e. hasMarker (entry_id e)) (commentDataList st)
      \<and> distinct (map entry_id (issueDataList st))
      \<and> distinct (map entry_id (commentDataList st)))"

definition relatedItems :: "'n env \<Rightarrow> issueData list \<Rightarrow> item list" where
  "relatedItems env data =
     concat (map (\<lambda>issue.
       if \<not> truthy (body issue) then []
       else (case fetchAllRelatedData env issue of
               Inl e \<Rightarrow> []
             | Inr (allRelatedData, appended) \<Rightarrow> allRelatedData @ appended)) data)"

definition derived :: "'n env \<Rightarrow> item \<Rightarrow> 'n entry \<Rightarrow> bool" where
  "derived env item e =
     (entry_id e = item_id item
      \<and> plaintext e = cleanText (Some (cleanMarkdown env (item_text item)))
      \<and> extractEmbeddings env (cleanMarkdown env (item_text item)) = Inr (embedding e)
      \<and> markdown e = cleanText (item_text item)
      \<and> entry_payload e = item_payload item)"

definition fromItems :: "'n env \<Rightarrow> item list \<Rightarrow> 'n entry list \<Rightarrow> bool" where
  \<comment> \<open>every entry of the table is derived from one of the items\<close>
  "fromItems env items es = (\<forall>e \<in> set es. \<exists>item \<in> set items. derived env item e)"

definition withoutConsole :: "'n state \<Rightarrow> 'n state" where
  \<comment> \<open>the state of the tables, the sets and the clock, apart from the console\<close>
  "withoutConsole st = st\<lparr>console := []\<rparr>"

definition tables :: "error + files \<Rightarrow> error + issueRow list \<times> commentRow list" where
  \<comment> \<open>the two tables that a run writes, or the error that ended it\<close>
  "tables result = map_sum id (\<lambda>out. (issues_data_csv out, comments_data_csv out)) result"

text \<open>
  First occurrence wins: a table of a run holds, for the identifiers that its type marker
  selects, one entry for each identifier among the Conversation Items, in the order in
  which the identifiers first occur, and the entry is the one built from the first item
  with that identifier.
\<close>

definition firstOccurrences :: "'a list \<Rightarrow> 'a list" where
  \<comment> \<open>the distinct elements of a list, each at the place of its first occurrence\<close>
  "firstOccurrences xs = rev (remdups (rev xs))"

definition firstItem :: "jsstring \<Rightarrow> item list \<Rightarrow> item option" where
  \<comment> \<open>the first item of the list with the identifier\<close>
  "firstItem i items = List.find (\<lambda>x. item_id x = i) items"

definition tablesFrom :: "'n env \<Rightarrow> item list \<Rightarrow> 'n state \<Rightarrow> bool" where
  \<comment> \<open>the tables and the sets are those of the items visited so far: the identifiers in
      the order of their first occurrences, each entry derived from the first item with
      its identifier\<close>
  "tablesFrom env visited st =
     (map entry_id (issueDataList st)
        = firstOccurrences (filter (\<lambda>i. \<not> hasMarker i) (map item_id visited))
      \<and> map entry_id (commentDataList st)
        = firstOccurrences (filter hasMarker (map item_id visited))
      \<and> issueIds st = set (filter (\<lambda>i. \<not> hasMarker i) (map item_id visited))
      \<and> commentIds st = set (filter hasMarker (map item_id visited))
      \<and> list_all (\<lambda>e. case firstItem (entry_id e) visited of
                          None \<Rightarrow> False | Some item \<Rightarrow> derived env item e)
          (issueDataList st @ commentDataList st))"

section \<open>Sample data\<close>

text \<open>
  A small repository for the concrete runs below: issue 42 with two comments, issue 43
  without a body, issue 44, and a pull request that names issues 42 and 44 with one
  comment and one review comment. The embedding service answers the text
  \<^verbatim>\<open>second\<close> with a response that has no data, and the user lookup knows two logins.
  With \<open>inOrder\<close> the requests for the comments of issue 42 complete in their order
  before the list of pull requests arrives; with \<open>outOfOrder\<close> the second completes
  first and the first only after the function has returned.
\<close>

definition issue42 :: issueData where
  "issue42 = \<lparr>number = 42, node_id = js ''I_1'', body = Some (js ''Fix the \"bug\"''),
     userLogin = js ''alice'', repository_url = js ''https://api.github.com/repos/acme/app'',
     html_url = js ''https://github.com/acme/app/issues/42''\<rparr>"

definition issue43 :: issueData where
  "issue43 = \<lparr>number = 43, node_id = js ''I_2'', body = None,
     userLogin = js ''bob'', repository_url = js ''https://api.github.com/repos/acme/app'',
     html_url = js ''https://github.com/acme/app/issues/43''\<rparr>"

definition issue44 :: issueData where
  "issue44 = \<lparr>number = 44, node_id = js ''I_3'', body = Some (js ''Docs''),
     userLogin = js ''dave'', repository_url = js ''https://api.github.com/repos/acme/app'',
     html_url = js ''https://github.com/acme/app/issues/44''\<rparr>"

definition comments42 :: "restComment list" where
  "comments42 =
     [\<lparr>comment_id = 900, comment_node_id = js ''IC_a'', comment_body = Some (js ''first''),
       comment_login = js ''bob''\<rparr>,
      \<lparr>comment_id = 901, comment_node_id = js ''IC_b'', comment_body = Some (js ''second''),
       comment_login = js ''alice''\<rparr>]"

definition pulls :: "pullRequest list" where
  "pulls =
     [\<lparr>pr_number = 50, pr_node_id = js ''PR_x'', pr_body = Some (js ''Fixes #42 and #44''),
       pr_html_url = js ''https://github.com/acme/app/pull/50'', pr_repo_name = js ''app''\<rparr>,
      \<lparr>pr_number = 51, pr_node_id = js ''PR_y'', pr_body = Some (js ''Typo''),
       pr_html_url = js ''https://github.com/acme/app/pull/51'', pr_repo_name = js ''app''\<rparr>]"

definition node50 :: gqlNode where
  "node50 = \<lparr>gql_title = Some (js ''Fix''), gql_id = js ''PR_x'',
     gql_body = Some (js ''Fixes #42 and #44''), gql_login = js ''carol'',
     gql_comments = [\<lparr>gc_id = js ''IC_c'', gc_body = Some (js ''lgtm''), gc_login = js ''bob''\<rparr>],
     gql_reviewThreads = [[\<lparr>gc_id = js ''PRRC_d'', gc_body = None, gc_login = js ''alice''\<rparr>]]\<rparr>"

definition sampleEnv :: "(nat \<Rightarrow> nat \<Rightarrow> nat list) \<Rightarrow> nat env" where
  "sampleEnv schedule = \<lparr>marked = (\<lambda>t. js ''<p>'' @ t @ js ''</p>''),
     vo_embed = (\<lambda>t. if t = js ''second'' then Inr None else Inr (Some [Some [length t, 1]])),
     users_get = (\<lambda>l. if l = js ''alice'' then Inr 11 else if l = js ''bob'' then Inr 12
                        else Inl (Error (js ''404''))),
     issues_get = (\<lambda>ow rp n. Inr (js ''{}'')),
     issues_getComment = (\<lambda>ow rp n. Inr (js ''{}'')),
     issues_listComments = (\<lambda>ow rp n. Inr (if n = 42 then comments42 else [])),
     pulls_list = (\<lambda>ow rp. Inr pulls),
     graphql_node = (\<lambda>i. if i = js ''PR_x'' then Inr node50 else Inl (Error (js ''not found''))),
     resolved = schedule,
     now = (\<lambda>k. dec k),
     stringify = (\<lambda>p. js ''{}''),
     numberToString = dec\<rparr>"

definition inOrder :: "nat \<Rightarrow> nat \<Rightarrow> nat list" where
  "inOrder n k = (if n = 42 \<and> k = 0 then [0, 1] else [])"

definition outOfOrder :: "nat \<Rightarrow> nat \<Rightarrow> nat list" where
  "outOfOrder n k = (if n = 42 \<and> k = 0 then [1] else if n = 42 \<and> k = 2 then [0] else [])"

definition bodyItem42 :: item where
  \<comment> \<open>the elements that the Fetcher builds for issue 42\<close>
  "bodyItem42 = \<lparr>item_id = js ''I_1'', item_text = Some (js ''Fix the \"bug\"''),
     item_issue_id = js ''I_1'', item_userLogin = js ''alice'',
     item_payload = RestPayload (js ''{}'')\<rparr>"

definition commentItem900 :: item where
  "commentItem900 = \<lparr>item_id = js ''IC_a'', item_text = Some (js ''first''),
     item_issue_id = js ''I_1'', item_userLogin = js ''bob'',
     item_payload = RestPayload (js ''{}'')\<rparr>"

definition commentItem901 :: item where
  "commentItem901 = \<lparr>item_id = js ''IC_b'', item_text = Some (js ''second''),
     item_issue_id = js ''I_1'', item_userLogin = js ''alice'',
     item_payload = RestPayload (js ''{}'')\<rparr>"

definition payload50 :: payload where
  "payload50 = PrPayload \<lparr>pp_title = Some (js ''Fix''), pp_body = Some (js ''Fixes #42 and #44''),
     pp_owner = js ''carol'', pp_repo = js ''app'', pp_number = 50,
     pp_url = js ''https://github.com/acme/app/pull/50''\<rparr>"

definition prItem50 :: item where
  \<comment> \<open>the body of the pull request; the user lookup of the sample does not know its author\<close>
  "prItem50 = \<lparr>item_id = js ''PR_x'', item_text = Some (js ''Fixes #42 and #44''),
     item_issue_id = js ''I_1'', item_userLogin = js ''carol'', item_payload = payload50\<rparr>"

definition prComment50 :: item where
  "prComment50 = \<lparr>item_id = js ''IC_c'', item_text = Some (js ''lgtm''),
     item_issue_id = js ''I_1'', item_userLogin = js ''bob'', item_payload = payload50\<rparr>"

definition reviewComment50 :: item where
  "reviewComment50 = \<lparr>item_id = js ''PRRC_d'', item_text = None,
     item_issue_id = js ''I_1'', item_userLogin = js ''alice'', item_payload = payload50\<rparr>"

definition failingEnv :: "nat env" where
  \<comment> \<open>every external call is rejected\<close>
  "failingEnv = \<lparr>marked = (\<lambda>t. t),
     vo_embed = (\<lambda>t. Inl (Error (js ''down''))),
     users_get = (\<lambda>l. Inl (Error (js ''down''))),
     issues_get = (\<lambda>ow rp n. Inl (Error (js ''down''))),
     issues_getComment = (\<lambda>ow rp n. Inl (Error (js ''down''))),
     issues_listComments = (\<lambda>ow rp n. Inl (Error (js ''down''))),
     pulls_list = (\<lambda>ow rp. Inl (Error (js ''down''))),
     graphql_node = (\<lambda>i. Inl (Error (js ''down''))),
     resolved = (\<lambda>n k. []),
     now = dec,
     stringify = (\<lambda>p. js ''{}''),
     numberToString = dec\<rparr>"

section \<open>Properties of the Text Normalizer\<close>

lemma js_includes_Nil: "js_includes [] w = (w = [])"
  by simp

lemma words_nonempty: "w \<in> set words \<Longrightarrow> w \<noteq> []"
  by (auto simp: words_def js_def)

lemma removeSpecificWords_Nil: "removeSpecificWords [] = []"
  by (simp add: removeSpecificWords_def)

lemma removeSpecificWords_cases:
  "removeSpecificWords t = [] \<or> removeSpecificWords t = t"
  by (simp add: removeSpecificWords_def)

text \<open>
  Claim C9. \<^verbatim>\<open>removeSpecificWords\<close> is idempotent: applying it twice gives what
  applying it once gives, because the result is either the empty string, which contains
  none of the boilerplate phrases, or the text itself.
\<close>

theorem removeSpecificWords_idempotent:
  "removeSpecificWords (removeSpecificWords t) = removeSpecificWords t
   \<and> (removeSpecificWords t = [] \<or> removeSpecificWords t = t)
   \<and> \<not> list_ex (\<lambda>word. js_includes [] word) words"
proof -
  have none: "\<not> list_ex (\<lambda>word. js_includes [] word) words"
    using words_nonempty by (auto simp: list_ex_iff)
  show ?thesis
  proof (cases "list_ex (\<lambda>word. js_includes t word) words")
    case True
    then have "removeSpecificWords t = []"
      by (simp add: removeSpecificWords_def)
    with none show ?thesis
      by (simp add: removeSpecificWords_Nil)
  next
    case False
    then have "removeSpecificWords t = t"
      by (simp add: removeSpecificWords_def)
    with none show ?thesis
      by simp
  qed
qed

theorem removeSpecificWords_idempotent_witness:
  "removeSpecificWords (removeSpecificWords (js ''please /stop now'')) = []
   \<and> removeSpecificWords (js ''please /stop now'') = []"
proof -
  have "removeSpecificWords (js ''please /stop now'') = []"
    by (simp add: removeSpecificWords_def words_def js_def)
  with removeSpecificWords_idempotent [of "js ''please /stop now''"] show ?thesis
    by simp
qed

lemma replaceClass_delete: "replaceClass cls [] t = filter (\<lambda>c. \<not> cls c) t"
  by (induction t) simp_all

lemma set_replaceClass_dquote:
  "set (replaceClass (\<lambda>c. c = dquote) [dquote, dquote] t) = set t"
  by (induction t) auto

lemma count_replaceClass_dquote:
  "count_list (replaceClass (\<lambda>c. c = dquote) [dquote, dquote] t) dquote = 2 * count_list t dquote"
  by (induction t) simp_all

lemma undouble_other: "c \<noteq> dquote \<Longrightarrow> undouble (c # cs) = c # undouble cs"
  by (cases cs) simp_all

lemma undouble_replaceClass_dquote:
  "undouble (replaceClass (\<lambda>c. c = dquote) [dquote, dquote] t) = t"
  by (induction t) (simp_all add: undouble_other)

lemma isPrintableAscii_dquote: "isPrintableAscii dquote"
  by (simp add: isPrintableAscii_def dquote_def)

lemma cleanText_Some:
  "cleanText (Some t) =
     replaceClass (\<lambda>c. c = dquote) [dquote, dquote]
       (filter (\<lambda>c. isPrintableAscii c \<or> isWhiteSpace c) t)"
  by (cases t) (simp_all add: cleanText_def replaceClass_delete)

text \<open>
  Claim C4. \<^verbatim>\<open>cleanText\<close> gives the empty string for every falsy input
  (\<^verbatim>\<open>null\<close>, \<^verbatim>\<open>undefined\<close>, the empty string). Its output never holds a code unit
  outside printable ASCII and the whitespace class; reading the doubled quotes of the
  output back gives the input with exactly the code units outside these classes removed,
  so every double quote of the input is there, doubled, and the output has twice as many
  double quotes as the input. The result is a function of the argument alone.
\<close>

theorem cleanText_contract:
  "(\<not> truthy text \<longrightarrow> cleanText text = [])
   \<and> (\<forall>c \<in> set (cleanText text). isPrintableAscii c \<or> isWhiteSpace c)
   \<and> undouble (cleanText (Some t)) = filter (\<lambda>c. isPrintableAscii c \<or> isWhiteSpace c) t
   \<and> count_list (cleanText (Some t)) dquote = 2 * count_list t dquote"
proof -
  have falsy: "\<not> truthy text \<longrightarrow> cleanText text = []"
    by (auto simp: truthy_def cleanText_def split: option.splits)
  have range: "\<forall>c \<in> set (cleanText text). isPrintableAscii c \<or> isWhiteSpace c"
  proof (cases "text")
    case None
    then show ?thesis by (simp add: cleanText_def)
  next
    case (Some s)
    then show ?thesis
      by (simp only: cleanText_Some set_replaceClass_dquote) simp
  qed
  have rt: "undouble (cleanText (Some t)) = filter (\<lambda>c. isPrintableAscii c \<or> isWhiteSpace c) t"
    by (simp only: cleanText_Some undouble_replaceClass_dquote)
  have "count_list (filter (\<lambda>c. isPrintableAscii c \<or> isWhiteSpace c) t) dquote = count_list t dquote"
    by (induction t) (simp_all add: isPrintableAscii_dquote)
  then have twice: "count_list (cleanText (Some t)) dquote = 2 * count_list t dquote"
    by (simp only: cleanText_Some count_replaceClass_dquote)
  from falsy range rt twice show ?thesis
    by blast
qed

theorem cleanText_contract_witness:
  "cleanText None = [] \<and> cleanText (Some []) = []
   \<and> cleanText (Some [0x61, 0x22, 0x07, 0x2028, 0x263A, 0x0A]) = [0x61, 0x22, 0x22, 0x2028, 0x0A]
   \<and> undouble [0x61, 0x22, 0x22, 0x2028, 0x0A] = [0x61, 0x22, 0x2028, 0x0A]"
proof -
  have v: "cleanText (Some [0x61, 0x22, 0x07, 0x2028, 0x263A, 0x0A]) = [0x61, 0x22, 0x22, 0x2028, 0x0A]"
    by (simp add: cleanText_def isPrintableAscii_def isWhiteSpace_def dquote_def)
  have f: "\<not> truthy None" "\<not> truthy (Some [])"
    by (simp_all add: truthy_def)
  from cleanText_contract [of None "[0x61, 0x22, 0x07, 0x2028, 0x263A, 0x0A]"]
    cleanText_contract [of "Some []" "[]"] f v
  show ?thesis
    by (simp add: isPrintableAscii_def isWhiteSpace_def)
qed

section \<open>Properties of the Deduplicating Aggregator\<close>

lemma buildEntry_Inr:
  assumes "buildEntry env issue st item = Inr (e, st')"
  shows "derived env item e"
    and "entry_issue_id e = node_id issue"
    and "issueDataList st' = issueDataList st" and "commentDataList st' = commentDataList st"
    and "issueIds st' = issueIds st" and "commentIds st' = commentIds st"
  using assms
  by (auto simp: buildEntry_def derived_def Let_def split: sum.splits prod.splits)

lemma tablesOk_initial: "tablesOk initial"
  by (simp add: tablesOk_def initial_def)

lemma route_tablesOk:
  assumes "tablesOk st" and "entry_id e = item_id item"
  shows "tablesOk (route st item e)"
  using assms by (auto simp: tablesOk_def route_def)

lemma route_seen: "seen (route st item e) (item_id item)"
  by (simp add: seen_def route_def)

lemma route_mono:
  "issueIds st \<subseteq> issueIds (route st item e)" "commentIds st \<subseteq> commentIds (route st item e)"
  by (auto simp: route_def)

lemma route_tables:
  "set (issueDataList (route st item e)) \<subseteq> insert e (set (issueDataList st))"
  "set (commentDataList (route st item e)) \<subseteq> insert e (set (commentDataList st))"
  by (auto simp: route_def)

lemma tablesOk_build:
  "buildEntry env issue st item = Inr (e, st') \<Longrightarrow> tablesOk st \<Longrightarrow> tablesOk st'"
  by (simp add: tablesOk_def buildEntry_Inr)

lemma processItem_Inr:
  assumes "processItem env issue st item = Inr st'"
  obtains e st1 where "buildEntry env issue st item = Inr (e, st1)" and "st' = route st1 item e"
  using assms by (auto simp: processItem_def split: sum.splits)

lemma processItem_tablesOk:
  assumes "processItem env issue st item = Inr st'" and "tablesOk st"
  shows "tablesOk st'"
proof -
  from assms(1) obtain e st1 where b: "buildEntry env issue st item = Inr (e, st1)"
    and r: "st' = route st1 item e"
    by (rule processItem_Inr)
  from buildEntry_Inr(1) [OF b] have "entry_id e = item_id item"
    by (simp add: derived_def)
  with tablesOk_build [OF b assms(2)] r show ?thesis
    by (simp add: route_tablesOk)
qed

lemma processItem_seen:
  assumes "processItem env issue st item = Inr st'"
  shows "seen st' (item_id item)" and "issueIds st \<subseteq> issueIds st'" and "commentIds st \<subseteq> commentIds st'"
proof -
  from assms obtain e st1 where b: "buildEntry env issue st item = Inr (e, st1)"
    and r: "st' = route st1 item e"
    by (rule processItem_Inr)
  show "seen st' (item_id item)"
    by (simp add: r route_seen)
  from route_mono [of st1 item e] buildEntry_Inr(5,6) [OF b] r
  show "issueIds st \<subseteq> issueIds st'" and "commentIds st \<subseteq> commentIds st'"
    by simp_all
qed

lemma seen_mono:
  "seen st i \<Longrightarrow> issueIds st \<subseteq> issueIds st' \<Longrightarrow> commentIds st \<subseteq> commentIds st' \<Longrightarrow> seen st' i"
  by (auto simp: seen_def)

lemma processItems_tablesOk:
  "processItems env issue st items = Inr st' \<Longrightarrow> tablesOk st \<Longrightarrow> tablesOk st'"
proof (induction items arbitrary: st)
  case Nil
  then show ?case by simp
next
  case (Cons item items)
  then show ?case
    by (auto split: sum.splits dest: processItem_tablesOk)
qed

lemma processItems_seen:
  "processItems env issue st items = Inr st' \<Longrightarrow>
     issueIds st \<subseteq> issueIds st' \<and> commentIds st \<subseteq> commentIds st'
     \<and> (\<forall>item \<in> set items. seen st' (item_id item))"
proof (induction items arbitrary: st)
  case Nil
  then show ?case by simp
next
  case (Cons item items)
  from Cons.prems obtain st1 where s1: "processItem env issue st item = Inr st1"
    and s2: "processItems env issue st1 items = Inr st'"
    by (auto split: sum.splits)
  from processItem_seen [OF s1] have a: "issueIds st \<subseteq> issueIds st1" "commentIds st \<subseteq> commentIds st1"
    and b: "seen st1 (item_id item)"
    by simp_all
  from Cons.IH [OF s2] have c: "issueIds st1 \<subseteq> issueIds st'" "commentIds st1 \<subseteq> commentIds st'"
    and d: "\<forall>item \<in> set items. seen st' (item_id item)"
    by simp_all
  from b c have "seen st' (item_id item)"
    by (blast intro: seen_mono)
  with a c d show ?case
    by auto
qed

lemma processIssue_skip:
  "\<not> truthy (body issue) \<Longrightarrow>
     processIssue env st issue =
       Inr (st\<lparr>console := console st @ [Processing (number issue), Skipping (number issue)]\<rparr>)"
  by (simp add: processIssue_def)

lemma processIssue_run:
  "truthy (body issue) \<Longrightarrow>
     processIssue env st issue =
       (case fetchAllRelatedData env issue of
          Inl e \<Rightarrow> Inl e
        | Inr (allRelatedData, appended) \<Rightarrow>
            processItems env issue (st\<lparr>console := console st @ [Processing (number issue)]\<rparr>)
              (allRelatedData @ appended))"
  by (simp add: processIssue_def Let_def)

lemma processIssue_cases:
  assumes "processIssue env st issue = Inr st'"
  obtains (skip) "\<not> truthy (body issue)"
      and "st' = st\<lparr>console := console st @ [Processing (number issue), Skipping (number issue)]\<rparr>"
    | (run) allRelatedData appended where "truthy (body issue)"
      and "fetchAllRelatedData env issue = Inr (allRelatedData, appended)"
      and "processItems env issue (st\<lparr>console := console st @ [Processing (number issue)]\<rparr>)
             (allRelatedData @ appended) = Inr st'"
proof (cases "truthy (body issue)")
  case False
  with assms processIssue_skip [OF False, of env st] skip show ?thesis
    by simp
next
  case True
  from assms have r: "(case fetchAllRelatedData env issue of
          Inl e \<Rightarrow> Inl e
        | Inr (allRelatedData, appended) \<Rightarrow>
            processItems env issue (st\<lparr>console := console st @ [Processing (number issue)]\<rparr>)
              (allRelatedData @ appended)) = Inr st'"
    by (simp only: processIssue_run [OF True])
  then obtain p where f: "fetchAllRelatedData env issue = Inr p"
    by (cases "fetchAllRelatedData env issue") simp_all
  obtain a b where p: "p = (a, b)"
    by (cases p)
  from r f p have "processItems env issue (st\<lparr>console := console st @ [Processing (number issue)]\<rparr>)
             (a @ b) = Inr st'"
    by simp
  with True f p run show ?thesis
    by simp
qed

lemma tablesOk_console: "tablesOk (st\<lparr>console := c\<rparr>) = tablesOk st"
  by (simp add: tablesOk_def)

lemma processIssue_tablesOk:
  assumes "processIssue env st issue = Inr st'" and "tablesOk st"
  shows "tablesOk st'"
  using assms(1)
proof (cases rule: processIssue_cases)
  case skip
  with assms(2) show ?thesis by (simp add: tablesOk_def)
next
  case (run allRelatedData appended)
  from processItems_tablesOk [OF run(3)] assms(2) show ?thesis
    by (simp add: tablesOk_console)
qed

lemma relatedItems_single_skip: "\<not> truthy (body issue) \<Longrightarrow> relatedItems env [issue] = []"
  by (simp add: relatedItems_def)

lemma relatedItems_single_run:
  "truthy (body issue) \<Longrightarrow> fetchAllRelatedData env issue = Inr (a, b) \<Longrightarrow>
     relatedItems env [issue] = a @ b"
  by (simp add: relatedItems_def)

lemma processIssue_seen:
  assumes "processIssue env st issue = Inr st'"
  shows "issueIds st \<subseteq> issueIds st' \<and> commentIds st \<subseteq> commentIds st'
    \<and> (\<forall>item \<in> set (relatedItems env [issue]). seen st' (item_id item))"
  using assms
proof (cases rule: processIssue_cases)
  case skip
  then show ?thesis
    by (simp add: relatedItems_single_skip)
next
  case (run allRelatedData appended)
  from processItems_seen [OF run(3)] show ?thesis
    by (simp add: relatedItems_single_run [OF run(1,2)])
qed

lemma relatedItems_Cons:
  "relatedItems env (issue # data) = relatedItems env [issue] @ relatedItems env data"
  by (simp add: relatedItems_def)

lemma processLoop_tablesOk:
  "processLoop env st data = Inr st' \<Longrightarrow> tablesOk st \<Longrightarrow> tablesOk st'"
proof (induction data arbitrary: st)
  case Nil
  then show ?case by simp
next
  case (Cons issue data)
  then show ?case
    by (auto split: sum.splits dest: processIssue_tablesOk)
qed

lemma processLoop_seen:
  "processLoop env st data = Inr st' \<Longrightarrow>
     issueIds st \<subseteq> issueIds st' \<and> commentIds st \<subseteq> commentIds st'
     \<and> (\<forall>item \<in> set (relatedItems env data). seen st' (item_id item))"
proof (induction data arbitrary: st)
  case Nil
  then show ?case by (simp add: relatedItems_def)
next
  case (Cons issue data)
  from Cons.prems obtain st1 where s1: "processIssue env st issue = Inr st1"
    and s2: "processLoop env st1 data = Inr st'"
    by (auto split: sum.splits)
  from processIssue_seen [OF s1] have a: "issueIds st \<subseteq> issueIds st1" "commentIds st \<subseteq> commentIds st1"
    and b: "\<forall>item \<in> set (relatedItems env [issue]). seen st1 (item_id item)"
    by simp_all
  from Cons.IH [OF s2] have c: "issueIds st1 \<subseteq> issueIds st'" "commentIds st1 \<subseteq> commentIds st'"
    and d: "\<forall>item \<in> set (relatedItems env data). seen st' (item_id item)"
    by simp_all
  from b c have "\<forall>item \<in> set (relatedItems env [issue]). seen st' (item_id item)"
    by (blast intro: seen_mono)
  with d have "\<forall>item \<in> set (relatedItems env (issue # data)). seen st' (item_id item)"
    by (subst relatedItems_Cons) auto
  with a c show ?case
    by blast
qed

lemma ids_saveIssuesToCsv: "map ir_id (saveIssuesToCsv env es) = map entry_id es"
  by (induction es) (simp_all add: saveIssuesToCsv_def)

lemma ids_saveCommentsToCsv: "map cr_id (saveCommentsToCsv env es) = map entry_id es"
  by (induction es) (simp_all add: saveCommentsToCsv_def)

lemma tablesOk_marker:
  assumes "tablesOk st"
  shows "(i \<in> commentIds st \<longrightarrow> hasMarker i) \<and> (i \<in> issueIds st \<longrightarrow> \<not> hasMarker i)"
proof -
  from assms have a: "issueIds st = entry_id ` set (issueDataList st)"
    and b: "commentIds st = entry_id ` set (commentDataList st)"
    and c: "\<forall>e \<in> set (issueDataList st). \<not> hasMarker (entry_id e)"
    and d: "\<forall>e \<in> set (commentDataList st). hasMarker (entry_id e)"
    by (simp_all add: tablesOk_def list_all_iff)
  from c d show ?thesis
    unfolding a b by blast
qed

lemma seen_exact:
  assumes "tablesOk st" and "seen st i"
  shows "if hasMarker i then i \<in> commentIds st \<and> i \<notin> issueIds st
         else i \<in> issueIds st \<and> i \<notin> commentIds st"
proof (cases "hasMarker i")
  case True
  with assms(2) tablesOk_marker [OF assms(1), of i] show ?thesis
    by (simp add: seen_def)
next
  case False
  with assms(2) tablesOk_marker [OF assms(1), of i] show ?thesis
    by (simp add: seen_def)
qed

lemma processIssues_Inr:
  assumes "processIssues env data = Inr out"
  obtains st where "processLoop env initial data = Inr st"
    and "issues_data_csv out = saveIssuesToCsv env (issueDataList st)"
    and "comments_data_csv out = saveCommentsToCsv env (commentDataList st)"
    and "stdout out = console st @ [SavedIssues (js ''issues_data.csv''), SavedComments (js ''comments_data.csv'')]"
proof (cases "processLoop env initial data")
  case (Inl e)
  have "processIssues env data = Inl e"
    unfolding processIssues_def Inl by (simp only: sum.case)
  with assms show ?thesis
    by (simp only: sum.distinct)
next
  case (Inr st)
  have "processIssues env data = Inr \<lparr>issues_data_csv = saveIssuesToCsv env (issueDataList st),
               comments_data_csv = saveCommentsToCsv env (commentDataList st),
               stdout = console st @ [SavedIssues (js ''issues_data.csv''),
                                      SavedComments (js ''comments_data.csv'')]\<rparr>"
    unfolding processIssues_def Inr by (simp only: sum.case)
  with assms have eq: "out = \<lparr>issues_data_csv = saveIssuesToCsv env (issueDataList st),
               comments_data_csv = saveCommentsToCsv env (commentDataList st),
               stdout = console st @ [SavedIssues (js ''issues_data.csv''),
                                      SavedComments (js ''comments_data.csv'')]\<rparr>"
    by (simp only: sum.inject)
  have "issues_data_csv out = saveIssuesToCsv env (issueDataList st)"
    and "comments_data_csv out = saveCommentsToCsv env (commentDataList st)"
    and "stdout out = console st @ [SavedIssues (js ''issues_data.csv''), SavedComments (js ''comments_data.csv'')]"
    unfolding eq by (simp_all only: files.select_convs)
  with Inr show ?thesis
    by (rule that)
qed

text \<open>
  Claim C1. After a run that ends, every identifier of the comments table holds one of
  the markers \<^verbatim>\<open>PR\<close> and \<^verbatim>\<open>IC\<close>, no identifier of the issues table
  does, no identifier is in both tables, and the identifier of every Conversation Item
  of the run is in the table that its marker selects and not in the other.
\<close>

theorem routing_exactly_one_table:
  assumes "processIssues env data = Inr out"
  shows "list_all hasMarker (map cr_id (comments_data_csv out))
     \<and> list_all (\<lambda>i. \<not> hasMarker i) (map ir_id (issues_data_csv out))
     \<and> set (map ir_id (issues_data_csv out)) \<inter> set (map cr_id (comments_data_csv out)) = {}
     \<and> (\<forall>item \<in> set (relatedItems env data).
          if hasMarker (item_id item)
          then item_id item \<in> set (map cr_id (comments_data_csv out))
             \<and> item_id item \<notin> set (map ir_id (issues_data_csv out))
          else item_id item \<in> set (map ir_id (issues_data_csv out))
             \<and> item_id item \<notin> set (map cr_id (comments_data_csv out)))"
proof -
  from assms obtain st where run: "processLoop env initial data = Inr st"
    and i: "issues_data_csv out = saveIssuesToCsv env (issueDataList st)"
    and c: "comments_data_csv out = saveCommentsToCsv env (commentDataList st)"
    by (rule processIssues_Inr)
  have ok: "tablesOk st"
    using processLoop_tablesOk [OF run tablesOk_initial] .
  have ii: "set (map ir_id (issues_data_csv out)) = issueIds st"
    and cc: "set (map cr_id (comments_data_csv out)) = commentIds st"
    using ok by (simp_all add: i c ids_saveIssuesToCsv ids_saveCommentsToCsv tablesOk_def)
  have m1: "list_all hasMarker (map cr_id (comments_data_csv out))"
    using ok by (simp add: c ids_saveCommentsToCsv tablesOk_def list_all_iff)
  have m2: "list_all (\<lambda>i. \<not> hasMarker i) (map ir_id (issues_data_csv out))"
    using ok by (simp add: i ids_saveIssuesToCsv tablesOk_def list_all_iff)
  have all: "\<forall>item \<in> set (relatedItems env data). seen st (item_id item)"
    using processLoop_seen [OF run] by simp
  have ex: "\<forall>item \<in> set (relatedItems env data).
          if hasMarker (item_id item)
          then item_id item \<in> commentIds st \<and> item_id item \<notin> issueIds st
          else item_id item \<in> issueIds st \<and> item_id item \<notin> commentIds st"
  proof
    fix item
    assume "item \<in> set (relatedItems env data)"
    with all have "seen st (item_id item)"
      by simp
    then show "if hasMarker (item_id item)
          then item_id item \<in> commentIds st \<and> item_id item \<notin> issueIds st
          else item_id item \<in> issueIds st \<and> item_id item \<notin> commentIds st"
      by (rule seen_exact [OF ok])
  qed
  have dj: "issueIds st \<inter> commentIds st = {}"
    using tablesOk_marker [OF ok] by blast
  from m1 m2 dj ex show ?thesis
    unfolding ii cc by simp
qed

lemma sample_ids:
  "map_sum id (\<lambda>out. (map ir_id (issues_data_csv out), map cr_id (comments_data_csv out)))
     (processIssues (sampleEnv outOfOrder) [issue42, issue43, issue44])
   = Inr ([js ''I_1'', js ''I_3''],
          [js ''IC_b'', js ''PR_x'', js ''IC_c'', js ''PRRC_d'', js ''IC_a''])"
  by code_simp

lemma sample_related:
  "map item_id (relatedItems (sampleEnv outOfOrder) [issue42, issue43, issue44])
   = [js ''I_1'', js ''IC_b'', js ''PR_x'', js ''IC_c'', js ''PRRC_d'', js ''IC_a'',
      js ''I_3'', js ''PR_x'', js ''IC_c'', js ''PRRC_d'']"
  by code_simp

lemma sample_run:
  obtains out where "processIssues (sampleEnv outOfOrder) [issue42, issue43, issue44] = Inr out"
    and "map ir_id (issues_data_csv out) = [js ''I_1'', js ''I_3'']"
    and "map cr_id (comments_data_csv out)
         = [js ''IC_b'', js ''PR_x'', js ''IC_c'', js ''PRRC_d'', js ''IC_a'']"
proof (cases "processIssues (sampleEnv outOfOrder) [issue42, issue43, issue44]")
  case (Inl e)
  with sample_ids show ?thesis
    by (simp only: map_sum.simps sum.distinct)
next
  case (Inr out)
  with sample_ids have "(map ir_id (issues_data_csv out), map cr_id (comments_data_csv out))
      = ([js ''I_1'', js ''I_3''],
         [js ''IC_b'', js ''PR_x'', js ''IC_c'', js ''PRRC_d'', js ''IC_a''])"
    by (simp only: map_sum.simps sum.inject)
  then have "map ir_id (issues_data_csv out) = [js ''I_1'', js ''I_3'']"
    and "map cr_id (comments_data_csv out)
         = [js ''IC_b'', js ''PR_x'', js ''IC_c'', js ''PRRC_d'', js ''IC_a'']"
    by (simp_all only: prod.inject)
  with Inr show ?thesis
    by (rule that)
qed

theorem routing_exactly_one_table_witness:
  "\<not> isl (processIssues (sampleEnv outOfOrder) [issue42, issue43, issue44])
   \<and> set (map ir_id (issues_data_csv (projr (processIssues (sampleEnv outOfOrder) [issue42, issue43, issue44]))))
     \<inter> set (map cr_id (comments_data_csv (projr (processIssues (sampleEnv outOfOrder) [issue42, issue43, issue44]))))
     = {}
   \<and> list_all hasMarker
       (map cr_id (comments_data_csv (projr (processIssues (sampleEnv outOfOrder) [issue42, issue43, issue44]))))
   \<and> map ir_id (issues_data_csv (projr (processIssues (sampleEnv outOfOrder) [issue42, issue43, issue44])))
     = [js ''I_1'', js ''I_3'']
   \<and> map cr_id (comments_data_csv (projr (processIssues (sampleEnv outOfOrder) [issue42, issue43, issue44])))
     = [js ''IC_b'', js ''PR_x'', js ''IC_c'', js ''PRRC_d'', js ''IC_a'']"
proof -
  obtain out where run: "processIssues (sampleEnv outOfOrder) [issue42, issue43, issue44] = Inr out"
    and i: "map ir_id (issues_data_csv out) = [js ''I_1'', js ''I_3'']"
    and c: "map cr_id (comments_data_csv out)
         = [js ''IC_b'', js ''PR_x'', js ''IC_c'', js ''PRRC_d'', js ''IC_a'']"
    by (rule sample_run)
  from routing_exactly_one_table [OF run]
  have "list_all hasMarker (map cr_id (comments_data_csv out))"
    and "set (map ir_id (issues_data_csv out)) \<inter> set (map cr_id (comments_data_csv out)) = {}"
    by simp_all
  with i c show ?thesis
    unfolding run by (simp only: sum.sel sum.disc simp_thms)
qed

lemma route_skip:
  assumes "seen st (item_id item)"
  shows "route st item e = st"
  using assms by (simp add: route_def seen_def)

lemma route_append:
  "(\<exists>es. issueDataList (route st item e) = issueDataList st @ es)
   \<and> (\<exists>es. commentDataList (route st item e) = commentDataList st @ es)"
  by (simp add: route_def)

lemma seen_build:
  "buildEntry env issue st item = Inr (e, st') \<Longrightarrow> seen st' i = seen st i"
  by (simp add: seen_def buildEntry_Inr)

lemma processItems_seen_mono:
  assumes "processItems env issue st items = Inr st'" and "seen st i"
  shows "seen st' i"
  using processItems_seen [OF assms(1)] assms(2) by (blast intro: seen_mono)

subsection \<open>What holds of the Fetcher's output for every order of completion\<close>

lemma pushEach_map: "pushEach f xs arr = arr @ map f xs"
  unfolding pushEach_def by (induction xs arbitrary: arr) simp_all

lemma foldl_append_map:
  "foldl (\<lambda>a thread. a @ map f thread) arr threads = arr @ concat (map (map f) threads)"
  by (induction threads arbitrary: arr) simp_all

lemma fetchPrData_order:
  assumes "fetchPrData env issue pr = Inr prData"
  obtains graphqlData where "graphql_node env (pr_node_id pr) = Inr graphqlData"
    and "map item_id prData
         = gql_id graphqlData # map gc_id (gql_comments graphqlData)
           @ concat (map (map gc_id) (gql_reviewThreads graphqlData))"
    and "map item_text prData
         = gql_body graphqlData # map gc_body (gql_comments graphqlData)
           @ concat (map (map gc_body) (gql_reviewThreads graphqlData))"
    and "list_all (\<lambda>i. item_issue_id i = node_id issue) prData"
proof (cases "graphql_node env (pr_node_id pr)")
  case (Inl e)
  with assms show ?thesis
    by (simp add: fetchPrData_def)
next
  case (Inr g)
  with assms have "map item_id prData
         = gql_id g # map gc_id (gql_comments g) @ concat (map (map gc_id) (gql_reviewThreads g))"
    and "map item_text prData
         = gql_body g # map gc_body (gql_comments g) @ concat (map (map gc_body) (gql_reviewThreads g))"
    and "list_all (\<lambda>i. item_issue_id i = node_id issue) prData"
    by (auto simp: fetchPrData_def Let_def pushEach_map foldl_append_map map_concat comp_def
        list_all_iff)
  with Inr show ?thesis
    by (rule that)
qed

lemma commentPush_issue_id: "list_all (\<lambda>i. item_issue_id i = node_id issue) (commentPush env issue c)"
  by (simp add: commentPush_def split: prod.splits sum.splits)

lemma pushesAt_issue_id:
  "list_all (\<lambda>i. item_issue_id i = node_id issue) (pushesAt env issue cs k)"
  using commentPush_issue_id [of issue env]
  by (auto simp: pushesAt_def list_all_iff)

lemma fetchPrLoop_issue_id:
  "fetchPrLoop env issue cs k prs acc = Inr r \<Longrightarrow>
     list_all (\<lambda>i. item_issue_id i = node_id issue) acc \<Longrightarrow>
     list_all (\<lambda>i. item_issue_id i = node_id issue) r \<and> take (length acc) r = acc"
proof (induction prs arbitrary: k acc)
  case Nil
  then show ?case by simp
next
  case (Cons pr prs)
  from Cons.prems(1) obtain prData where d: "fetchPrData env issue pr = Inr prData"
    and l: "fetchPrLoop env issue cs (Suc k) prs (acc @ pushesAt env issue cs k @ prData) = Inr r"
    by (auto split: sum.splits)
  from d have "list_all (\<lambda>i. item_issue_id i = node_id issue) prData"
    by (rule fetchPrData_order)
  with Cons.prems(2) pushesAt_issue_id [of issue env cs k]
  have "list_all (\<lambda>i. item_issue_id i = node_id issue) (acc @ pushesAt env issue cs k @ prData)"
    by simp
  from Cons.IH [OF l this]
  have a: "list_all (\<lambda>i. item_issue_id i = node_id issue) r"
    and b: "take (length (acc @ pushesAt env issue cs k @ prData)) r = acc @ pushesAt env issue cs k @ prData"
    by simp_all
  from b have "take (length acc) (take (length (acc @ pushesAt env issue cs k @ prData)) r) = acc"
    by simp
  then have "take (length acc) r = acc"
    by (simp add: min_def)
  with a show ?case
    by simp
qed

lemma fetchAllRelatedData_Inr:
  assumes "fetchAllRelatedData env issue = Inr (allData, appended)"
  obtains payload issueComments associatedPRs
  where "issues_get env (fst (repoOwnerName (repository_url issue)))
           (snd (repoOwnerName (repository_url issue))) (number issue) = Inr payload"
    and "fetchIssueComments env issue = Inr issueComments"
    and "fetchAssociatedPRs env issue = Inr associatedPRs"
    and "fetchPrLoop env issue issueComments 1 associatedPRs
           (\<lparr>item_id = node_id issue, item_text = body issue, item_issue_id = node_id issue,
              item_userLogin = userLogin issue, item_payload = RestPayload payload\<rparr>
            # pushesAt env issue issueComments 0) = Inr allData"
    and "appended = pushesAt env issue issueComments (Suc (length associatedPRs))"
  using assms
  by (auto simp: fetchAllRelatedData_def Let_def split: prod.splits sum.splits)

lemma fetchAllRelatedData_always:
  assumes "fetchAllRelatedData env issue = Inr (allData, appended)"
  shows "list_all (\<lambda>i. item_issue_id i = node_id issue) (allData @ appended)"
    and "allData \<noteq> []"
    and "item_id (hd allData) = node_id issue" and "item_text (hd allData) = body issue"
proof -
  from assms obtain payload issueComments associatedPRs
    where l: "fetchPrLoop env issue issueComments 1 associatedPRs
           (\<lparr>item_id = node_id issue, item_text = body issue, item_issue_id = node_id issue,
              item_userLogin = userLogin issue, item_payload = RestPayload payload\<rparr>
            # pushesAt env issue issueComments 0) = Inr allData"
      and a: "appended = pushesAt env issue issueComments (Suc (length associatedPRs))"
    by (rule fetchAllRelatedData_Inr)
  have "list_all (\<lambda>i. item_issue_id i = node_id issue)
          (\<lparr>item_id = node_id issue, item_text = body issue, item_issue_id = node_id issue,
              item_userLogin = userLogin issue, item_payload = RestPayload payload\<rparr>
            # pushesAt env issue issueComments 0)"
    using pushesAt_issue_id [of issue env issueComments 0] by simp
  from fetchPrLoop_issue_id [OF l this]
  have r: "list_all (\<lambda>i. item_issue_id i = node_id issue) allData"
    and t: "take (Suc (length (pushesAt env issue issueComments 0))) allData
        = \<lparr>item_id = node_id issue, item_text = body issue, item_issue_id = node_id issue,
              item_userLogin = userLogin issue, item_payload = RestPayload payload\<rparr>
            # pushesAt env issue issueComments 0"
    by simp_all
  from r a pushesAt_issue_id [of issue env issueComments "Suc (length associatedPRs)"]
  show "list_all (\<lambda>i. item_issue_id i = node_id issue) (allData @ appended)"
    by simp
  from t show "allData \<noteq> []"
    by auto
  from t have "hd allData
      = \<lparr>item_id = node_id issue, item_text = body issue, item_issue_id = node_id issue,
              item_userLogin = userLogin issue, item_payload = RestPayload payload\<rparr>"
    by (cases allData) simp_all
  then show "item_id (hd allData) = node_id issue" and "item_text (hd allData) = body issue"
    by simp_all
qed

subsection \<open>The Fetcher's output when the requests complete in order\<close>

lemma pushesAt_in_order:
  assumes "resolved env (number issue) k = [0..<length cs]"
  shows "pushesAt env issue cs k = concat (map (commentPush env issue) cs)"
proof -
  have "map (\<lambda>i. if i < length cs then commentPush env issue (cs ! i) else []) [0..<length cs]
      = map (\<lambda>i. commentPush env issue (cs ! i)) [0..<length cs]"
    by simp
  also have "\<dots> = map (commentPush env issue) (map (\<lambda>i. cs ! i) [0..<length cs])"
    by (simp add: comp_def)
  also have "\<dots> = map (commentPush env issue) cs"
    by (simp only: map_nth)
  finally show ?thesis
    by (simp only: pushesAt_def assms)
qed

lemma pushesAt_none:
  assumes "resolved env (number issue) k = []"
  shows "pushesAt env issue cs k = []"
  by (simp add: pushesAt_def assms)

lemma fetchPrLoop_in_order:
  "fetchPrLoop env issue cs k prs acc = Inr r \<Longrightarrow>
     \<forall>j \<ge> k. resolved env (number issue) j = [] \<Longrightarrow>
     \<exists>ds. list_all2 (\<lambda>pr d. fetchPrData env issue pr = Inr d) prs ds \<and> r = acc @ concat ds"
proof (induction prs arbitrary: k acc)
  case Nil
  then show ?case by simp
next
  case (Cons pr prs)
  from Cons.prems(1) obtain prData where d: "fetchPrData env issue pr = Inr prData"
    and l: "fetchPrLoop env issue cs (Suc k) prs (acc @ pushesAt env issue cs k @ prData) = Inr r"
    by (auto split: sum.splits)
  from Cons.prems(2) have "pushesAt env issue cs k = []"
    by (simp add: pushesAt_none)
  with l have l': "fetchPrLoop env issue cs (Suc k) prs (acc @ prData) = Inr r"
    by simp
  from Cons.prems(2) have "\<forall>j \<ge> Suc k. resolved env (number issue) j = []"
    by simp
  from Cons.IH [OF l' this] obtain ds
    where "list_all2 (\<lambda>pr d. fetchPrData env issue pr = Inr d) prs ds" and "r = (acc @ prData) @ concat ds"
    by blast
  with d have "list_all2 (\<lambda>pr d. fetchPrData env issue pr = Inr d) (pr # prs) (prData # ds)
      \<and> r = acc @ concat (prData # ds)"
    by simp
  then show ?case
    by blast
qed

lemma fetchAllRelatedData_in_order:
  assumes "fetchAllRelatedData env issue = Inr (allData, appended)"
    and "fetchIssueComments env issue = Inr issueComments"
    and "fetchAssociatedPRs env issue = Inr associatedPRs"
    and "resolved env (number issue) 0 = [0..<length issueComments]"
    and "\<forall>j \<ge> 1. resolved env (number issue) j = []"
  shows "\<exists>first ds.
      item_id first = node_id issue \<and> item_text first = body issue
      \<and> list_all2 (\<lambda>pr d. fetchPrData env issue pr = Inr d) associatedPRs ds
      \<and> allData = first # concat (map (commentPush env issue) issueComments) @ concat ds
      \<and> appended = []"
proof -
  from assms(1) obtain payload cs prs
    where c: "fetchIssueComments env issue = Inr cs"
      and p: "fetchAssociatedPRs env issue = Inr prs"
      and l: "fetchPrLoop env issue cs 1 prs
           (\<lparr>item_id = node_id issue, item_text = body issue, item_issue_id = node_id issue,
              item_userLogin = userLogin issue, item_payload = RestPayload payload\<rparr>
            # pushesAt env issue cs 0) = Inr allData"
      and a: "appended = pushesAt env issue cs (Suc (length prs))"
    by (rule fetchAllRelatedData_Inr)
  from c p assms(2,3) have cs: "cs = issueComments" and prs: "prs = associatedPRs"
    by simp_all
  from assms(5) have "resolved env (number issue) (Suc (length prs)) = []"
    by simp
  with a have e: "appended = []"
    by (simp add: pushesAt_none)
  from fetchPrLoop_in_order [OF l assms(5)] obtain ds
    where d: "list_all2 (\<lambda>pr d. fetchPrData env issue pr = Inr d) prs ds"
      and r: "allData = (\<lparr>item_id = node_id issue, item_text = body issue, item_issue_id = node_id issue,
              item_userLogin = userLogin issue, item_payload = RestPayload payload\<rparr>
            # pushesAt env issue cs 0) @ concat ds"
    by blast
  let ?first = "\<lparr>item_id = node_id issue, item_text = body issue, item_issue_id = node_id issue,
              item_userLogin = userLogin issue, item_payload = RestPayload payload\<rparr>"
  from r have "allData = ?first # concat (map (commentPush env issue) issueComments) @ concat ds"
    by (simp add: cs pushesAt_in_order [OF assms(4)])
  with d e have "item_id ?first = node_id issue \<and> item_text ?first = body issue
      \<and> list_all2 (\<lambda>pr d. fetchPrData env issue pr = Inr d) associatedPRs ds
      \<and> allData = ?first # concat (map (commentPush env issue) issueComments) @ concat ds
      \<and> appended = []"
    unfolding prs by simp
  then show ?thesis
    by blast
qed

subsection \<open>The order of the Fetcher's output in the sample\<close>

lemma sample_fetch_outOfOrder:
  "fetchAllRelatedData (sampleEnv outOfOrder) issue42
   = Inr ([bodyItem42, commentItem901, prItem50, prComment50, reviewComment50], [commentItem900])"
  by code_simp

lemma sample_fetch_inOrder:
  "fetchAllRelatedData (sampleEnv inOrder) issue42
   = Inr ([bodyItem42, commentItem900, commentItem901, prItem50, prComment50, reviewComment50], [])"
  by code_simp

lemma sample_comment_ids_outOfOrder:
  "map_sum id (map cr_id \<circ> comments_data_csv) (processIssues (sampleEnv outOfOrder) [issue42])
   = Inr [js ''IC_b'', js ''PR_x'', js ''IC_c'', js ''PRRC_d'', js ''IC_a'']"
  by code_simp

text \<open>
  Claim C3. Every element of the Fetcher's output carries the node id of the seed issue,
  the issue body is the first element, and the elements of one pull request are its
  body, its comments and its review comments in this order
  (\<open>fetchAllRelatedData_always\<close>, \<open>fetchPrData_order\<close>). The issue comments stand
  between the issue body and the pull requests when the requests for their payloads
  complete in their order before the list of pull requests arrives
  (\<open>fetchAllRelatedData_in_order\<close>), and not otherwise: in the sample, where the second
  request completes first and the first only after the function has returned, the array
  holds the second comment before the pull request, the first comment is appended behind
  it, and the comments table has this order.
\<close>

theorem fetch_order_follows_completion:
  "fetchAllRelatedData (sampleEnv inOrder) issue42
     = Inr ([bodyItem42, commentItem900, commentItem901, prItem50, prComment50, reviewComment50], [])
   \<and> fetchAllRelatedData (sampleEnv outOfOrder) issue42
     = Inr ([bodyItem42, commentItem901, prItem50, prComment50, reviewComment50], [commentItem900])
   \<and> map_sum id (map cr_id \<circ> comments_data_csv) (processIssues (sampleEnv outOfOrder) [issue42])
     = Inr [js ''IC_b'', js ''PR_x'', js ''IC_c'', js ''PRRC_d'', js ''IC_a'']"
  using sample_fetch_inOrder sample_fetch_outOfOrder sample_comment_ids_outOfOrder
  by (simp only: simp_thms)

subsection \<open>Entries and the items they come from\<close>

lemma fromItems_Nil: "fromItems env items []"
  by (simp add: fromItems_def)

lemma fromItems_mono: "fromItems env items es \<Longrightarrow> set items \<subseteq> set items' \<Longrightarrow> fromItems env items' es"
  unfolding fromItems_def by blast

lemma fromItems_subset:
  "fromItems env items es \<Longrightarrow> derived env item e \<Longrightarrow> item \<in> set items \<Longrightarrow>
     set es' \<subseteq> insert e (set es) \<Longrightarrow> fromItems env items es'"
  unfolding fromItems_def by blast

lemma processItem_fromItems:
  assumes "processItem env issue st item = Inr st'" and "item \<in> set items"
    and "fromItems env items (issueDataList st)" and "fromItems env items (commentDataList st)"
  shows "fromItems env items (issueDataList st') \<and> fromItems env items (commentDataList st')"
proof -
  from assms(1) obtain e st1 where b: "buildEntry env issue st item = Inr (e, st1)"
    and r: "st' = route st1 item e"
    by (rule processItem_Inr)
  have d: "derived env item e"
    using buildEntry_Inr(1) [OF b] .
  have i: "set (issueDataList st') \<subseteq> insert e (set (issueDataList st))"
    and c: "set (commentDataList st') \<subseteq> insert e (set (commentDataList st))"
    using route_tables [of st1 item e] buildEntry_Inr(3,4) [OF b] by (simp_all add: r)
  from fromItems_subset [OF assms(3) d assms(2) i] fromItems_subset [OF assms(4) d assms(2) c]
  show ?thesis
    by simp
qed

lemma processItems_fromItems:
  "processItems env issue st xs = Inr st' \<Longrightarrow> set xs \<subseteq> set items \<Longrightarrow>
     fromItems env items (issueDataList st) \<and> fromItems env items (commentDataList st) \<Longrightarrow>
     fromItems env items (issueDataList st') \<and> fromItems env items (commentDataList st')"
proof (induction xs arbitrary: st)
  case Nil
  then show ?case by simp
next
  case (Cons x xs)
  from Cons.prems(1) obtain st1 where s1: "processItem env issue st x = Inr st1"
    and s2: "processItems env issue st1 xs = Inr st'"
    by (auto split: sum.splits)
  from Cons.prems(2) have x: "x \<in> set items" and xs: "set xs \<subseteq> set items"
    by simp_all
  from processItem_fromItems [OF s1 x] Cons.prems(3)
  have "fromItems env items (issueDataList st1) \<and> fromItems env items (commentDataList st1)"
    by simp
  with Cons.IH [OF s2 xs] show ?case
    by simp
qed

lemma processIssue_fromItems:
  assumes "processIssue env st issue = Inr st'" and "set (relatedItems env [issue]) \<subseteq> set items"
    and "fromItems env items (issueDataList st) \<and> fromItems env items (commentDataList st)"
  shows "fromItems env items (issueDataList st') \<and> fromItems env items (commentDataList st')"
  using assms(1)
proof (cases rule: processIssue_cases)
  case skip
  with assms(3) show ?thesis
    by simp
next
  case (run allRelatedData appended)
  from assms(2) have sub: "set (allRelatedData @ appended) \<subseteq> set items"
    by (simp only: relatedItems_single_run [OF run(1,2)])
  from assms(3)
  have "fromItems env items (issueDataList (st\<lparr>console := console st @ [Processing (number issue)]\<rparr>))
      \<and> fromItems env items (commentDataList (st\<lparr>console := console st @ [Processing (number issue)]\<rparr>))"
    by simp
  with processItems_fromItems [OF run(3) sub] show ?thesis
    by simp
qed

lemma processLoop_fromItems:
  "processLoop env st data = Inr st' \<Longrightarrow> set (relatedItems env data) \<subseteq> set items \<Longrightarrow>
     fromItems env items (issueDataList st) \<and> fromItems env items (commentDataList st) \<Longrightarrow>
     fromItems env items (issueDataList st') \<and> fromItems env items (commentDataList st')"
proof (induction data arbitrary: st)
  case Nil
  then show ?case by simp
next
  case (Cons issue data)
  from Cons.prems(1) obtain st1 where s1: "processIssue env st issue = Inr st1"
    and s2: "processLoop env st1 data = Inr st'"
    by (auto split: sum.splits)
  from Cons.prems(2) have a: "set (relatedItems env [issue]) \<subseteq> set items"
    and b: "set (relatedItems env data) \<subseteq> set items"
    by (simp_all add: relatedItems_Cons [of env issue data])
  from processIssue_fromItems [OF s1 a Cons.prems(3)] Cons.IH [OF s2 b] show ?case
    by simp
qed

lemma processIssues_fromItems:
  assumes "processIssues (env :: 'n env) data = Inr out"
  obtains st :: "'n state" where "issues_data_csv out = saveIssuesToCsv env (issueDataList st)"
    and "comments_data_csv out = saveCommentsToCsv env (commentDataList st)"
    and "fromItems env (relatedItems env data) (issueDataList st)"
    and "fromItems env (relatedItems env data) (commentDataList st)"
proof -
  from assms obtain st where l: "processLoop env initial data = Inr st"
    and i: "issues_data_csv out = saveIssuesToCsv env (issueDataList st)"
    and c: "comments_data_csv out = saveCommentsToCsv env (commentDataList st)"
    by (rule processIssues_Inr)
  have "fromItems env (relatedItems env data) (issueDataList initial)
      \<and> fromItems env (relatedItems env data) (commentDataList initial)"
    by (simp add: initial_def fromItems_Nil)
  with processLoop_fromItems [OF l subset_refl]
  have "fromItems env (relatedItems env data) (issueDataList st)"
    and "fromItems env (relatedItems env data) (commentDataList st)"
    by simp_all
  with i c show ?thesis
    by (rule that)
qed

lemma issueRow_entry:
  assumes "r \<in> set (saveIssuesToCsv env es)"
  obtains e where "e \<in> set es" and "ir_id r = entry_id e" and "ir_plaintext r = plaintext e"
    and "ir_embedding r = formatEmbedding (numberToString env) (embedding e)"
    and "ir_markdown r = markdown e"
proof -
  from assms obtain e where e: "e \<in> set es"
    and r: "r = \<lparr>ir_id = entry_id e, ir_plaintext = plaintext e,
            ir_embedding = formatEmbedding (numberToString env) (embedding e),
            ir_payload = stringify env (entry_payload e),
            ir_author_id = author_id e, ir_created_at = created_at e,
            ir_modified_at = modified_at e, ir_markdown = markdown e\<rparr>"
    unfolding saveIssuesToCsv_def by (auto simp only: set_map image_iff)
  have "ir_id r = entry_id e" and "ir_plaintext r = plaintext e"
    and "ir_embedding r = formatEmbedding (numberToString env) (embedding e)"
    and "ir_markdown r = markdown e"
    unfolding r by (simp_all only: issueRow.select_convs)
  with e show ?thesis
    by (rule that)
qed

lemma commentRow_entry:
  assumes "r \<in> set (saveCommentsToCsv env es)"
  obtains e where "e \<in> set es" and "cr_id r = entry_id e" and "cr_plaintext r = plaintext e"
    and "cr_embedding r = formatEmbedding (numberToString env) (embedding e)"
    and "cr_markdown r = markdown e"
proof -
  from assms obtain e where e: "e \<in> set es"
    and r: "r = \<lparr>cr_id = entry_id e, cr_plaintext = plaintext e,
            cr_markdown = markdown e,
            cr_embedding = formatEmbedding (numberToString env) (embedding e),
            cr_payload = stringify env (entry_payload e),
            cr_author_id = author_id e, cr_created_at = created_at e,
            cr_modified_at = modified_at e, cr_issue_id = entry_issue_id e\<rparr>"
    unfolding saveCommentsToCsv_def by (auto simp only: set_map image_iff)
  have "cr_id r = entry_id e" and "cr_plaintext r = plaintext e"
    and "cr_embedding r = formatEmbedding (numberToString env) (embedding e)"
    and "cr_markdown r = markdown e"
    unfolding r by (simp_all only: commentRow.select_convs)
  with e show ?thesis
    by (rule that)
qed

text \<open>
  Claim C5. The embedding of an entry is what the embedding service gives for the
  markup-cleaned text of the item, the result of \<^verbatim>\<open>cleanMarkdown\<close>, and the plaintext is
  \<^verbatim>\<open>cleanText\<close> of that same text. After a run that ends, every row of both tables has
  its plaintext and its embedding column from a Conversation Item of the run in this way.
\<close>

theorem embedding_over_markup_cleaned_text:
  "(buildEntry (env :: 'n env) issue st item = Inr (e, st') \<longrightarrow>
      extractEmbeddings env (cleanMarkdown env (item_text item)) = Inr (embedding e)
      \<and> plaintext e = cleanText (Some (cleanMarkdown env (item_text item))))
   \<and> (processIssues env data = Inr out \<longrightarrow>
      (\<forall>r \<in> set (issues_data_csv out). \<exists>item \<in> set (relatedItems env data). \<exists>v.
          ir_id r = item_id item
          \<and> extractEmbeddings env (cleanMarkdown env (item_text item)) = Inr v
          \<and> ir_embedding r = formatEmbedding (numberToString env) v
          \<and> ir_plaintext r = cleanText (Some (cleanMarkdown env (item_text item))))
      \<and> (\<forall>r \<in> set (comments_data_csv out). \<exists>item \<in> set (relatedItems env data). \<exists>v.
          cr_id r = item_id item
          \<and> extractEmbeddings env (cleanMarkdown env (item_text item)) = Inr v
          \<and> cr_embedding r = formatEmbedding (numberToString env) v
          \<and> cr_plaintext r = cleanText (Some (cleanMarkdown env (item_text item)))))"
proof -
  have one: "extractEmbeddings env (cleanMarkdown env (item_text item)) = Inr (embedding e)
      \<and> plaintext e = cleanText (Some (cleanMarkdown env (item_text item)))"
    if "buildEntry env issue st item = Inr (e, st')"
    using buildEntry_Inr(1) [OF that] by (simp add: derived_def)
  have rows: "(\<forall>r \<in> set (issues_data_csv out). \<exists>item \<in> set (relatedItems env data). \<exists>v.
          ir_id r = item_id item
          \<and> extractEmbeddings env (cleanMarkdown env (item_text item)) = Inr v
          \<and> ir_embedding r = formatEmbedding (numberToString env) v
          \<and> ir_plaintext r = cleanText (Some (cleanMarkdown env (item_text item))))
      \<and> (\<forall>r \<in> set (comments_data_csv out). \<exists>item \<in> set (relatedItems env data). \<exists>v.
          cr_id r = item_id item
          \<and> extractEmbeddings env (cleanMarkdown env (item_text item)) = Inr v
          \<and> cr_embedding r = formatEmbedding (numberToString env) v
          \<and> cr_plaintext r = cleanText (Some (cleanMarkdown env (item_text item))))"
    if "processIssues env data = Inr out"
  proof -
    from that obtain s :: "'n state"
      where i: "issues_data_csv out = saveIssuesToCsv env (issueDataList s)"
      and c: "comments_data_csv out = saveCommentsToCsv env (commentDataList s)"
      and fi: "fromItems env (relatedItems env data) (issueDataList s)"
      and fc: "fromItems env (relatedItems env data) (commentDataList s)"
      by (rule processIssues_fromItems)
    have a: "\<exists>item \<in> set (relatedItems env data). \<exists>v.
          ir_id r = item_id item
          \<and> extractEmbeddings env (cleanMarkdown env (item_text item)) = Inr v
          \<and> ir_embedding r = formatEmbedding (numberToString env) v
          \<and> ir_plaintext r = cleanText (Some (cleanMarkdown env (item_text item)))"
      if "r \<in> set (issues_data_csv out)" for r
    proof -
      from that obtain x where x: "x \<in> set (issueDataList s)" and f: "ir_id r = entry_id x"
        "ir_plaintext r = plaintext x"
        "ir_embedding r = formatEmbedding (numberToString env) (embedding x)"
        unfolding i by (rule issueRow_entry)
      from fi x obtain item where "item \<in> set (relatedItems env data)" and "derived env item x"
        unfolding fromItems_def by blast
      with f show ?thesis
        unfolding derived_def by auto
    qed
    have b: "\<exists>item \<in> set (relatedItems env data). \<exists>v.
          cr_id r = item_id item
          \<and> extractEmbeddings env (cleanMarkdown env (item_text item)) = Inr v
          \<and> cr_embedding r = formatEmbedding (numberToString env) v
          \<and> cr_plaintext r = cleanText (Some (cleanMarkdown env (item_text item)))"
      if "r \<in> set (comments_data_csv out)" for r
    proof -
      from that obtain x where x: "x \<in> set (commentDataList s)" and f: "cr_id r = entry_id x"
        "cr_plaintext r = plaintext x"
        "cr_embedding r = formatEmbedding (numberToString env) (embedding x)"
        unfolding c by (rule commentRow_entry)
      from fc x obtain item where "item \<in> set (relatedItems env data)" and "derived env item x"
        unfolding fromItems_def by blast
      with f show ?thesis
        unfolding derived_def by auto
    qed
    from a b show ?thesis
      by blast
  qed
  from one rows show ?thesis
    by blast
qed

lemma sample_build_body:
  "\<not> isl (buildEntry (sampleEnv outOfOrder) issue42 initial bodyItem42)
   \<and> embedding (fst (projr (buildEntry (sampleEnv outOfOrder) issue42 initial bodyItem42))) = [13, 1]
   \<and> plaintext (fst (projr (buildEntry (sampleEnv outOfOrder) issue42 initial bodyItem42)))
     = js ''Fix the \"\"bug\"\"''
   \<and> markdown (fst (projr (buildEntry (sampleEnv outOfOrder) issue42 initial bodyItem42)))
     = js ''Fix the \"\"bug\"\"''
   \<and> cleanMarkdown (sampleEnv outOfOrder) (item_text bodyItem42) = js ''Fix the \"bug\"''
   \<and> extractEmbeddings (sampleEnv outOfOrder) (js ''Fix the \"\"bug\"\"'') = Inr [15, 1]"
  by code_simp

lemma Inr_projr_pair: "\<not> isl x \<Longrightarrow> x = Inr (fst (projr x), snd (projr x))"
  by (cases x) simp_all

theorem embedding_over_markup_cleaned_text_witness:
  "\<not> isl (buildEntry (sampleEnv outOfOrder) issue42 initial bodyItem42)
   \<and> extractEmbeddings (sampleEnv outOfOrder) (js ''Fix the \"bug\"'')
     = Inr (embedding (fst (projr (buildEntry (sampleEnv outOfOrder) issue42 initial bodyItem42))))
   \<and> embedding (fst (projr (buildEntry (sampleEnv outOfOrder) issue42 initial bodyItem42))) = [13, 1]
   \<and> plaintext (fst (projr (buildEntry (sampleEnv outOfOrder) issue42 initial bodyItem42)))
     = js ''Fix the \"\"bug\"\"''
   \<and> extractEmbeddings (sampleEnv outOfOrder) (js ''Fix the \"\"bug\"\"'') = Inr [15, 1]"
proof -
  have b: "buildEntry (sampleEnv outOfOrder) issue42 initial bodyItem42
      = Inr (fst (projr (buildEntry (sampleEnv outOfOrder) issue42 initial bodyItem42)),
             snd (projr (buildEntry (sampleEnv outOfOrder) issue42 initial bodyItem42)))"
    using sample_build_body [THEN conjunct1] by (rule Inr_projr_pair)
  have c: "cleanMarkdown (sampleEnv outOfOrder) (item_text bodyItem42) = js ''Fix the \"bug\"''"
    using sample_build_body by blast
  from embedding_over_markup_cleaned_text
    [of "sampleEnv outOfOrder" issue42 initial bodyItem42
        "fst (projr (buildEntry (sampleEnv outOfOrder) issue42 initial bodyItem42))"
        "snd (projr (buildEntry (sampleEnv outOfOrder) issue42 initial bodyItem42))"] b
  have "extractEmbeddings (sampleEnv outOfOrder) (cleanMarkdown (sampleEnv outOfOrder) (item_text bodyItem42))
     = Inr (embedding (fst (projr (buildEntry (sampleEnv outOfOrder) issue42 initial bodyItem42))))"
    by blast
  with c sample_build_body show ?thesis
    by (simp only: simp_thms)
qed

subsection \<open>The markdown column\<close>

lemma replaceClass_none: "\<forall>c \<in> set t. \<not> cls c \<Longrightarrow> replaceClass cls rep t = t"
  by (induction t) simp_all

lemma cleanText_unchanged:
  assumes "list_all (\<lambda>c. (isPrintableAscii c \<or> isWhiteSpace c) \<and> c \<noteq> dquote) t"
  shows "cleanText (Some t) = t"
proof -
  from assms have keep: "filter (\<lambda>c. isPrintableAscii c \<or> isWhiteSpace c) t = t"
    by (simp add: list_all_iff)
  from assms have "\<forall>c \<in> set t. \<not> c = dquote"
    by (simp add: list_all_iff)
  then have "replaceClass (\<lambda>c. c = dquote) [dquote, dquote] t = t"
    by (rule replaceClass_none)
  with keep show ?thesis
    by (simp only: cleanText_Some)
qed

lemma cleanText_changed:
  assumes "cleanText (Some t) = t"
  shows "list_all (\<lambda>c. (isPrintableAscii c \<or> isWhiteSpace c) \<and> c \<noteq> dquote) t"
proof -
  let ?kept = "filter (\<lambda>c. isPrintableAscii c \<or> isWhiteSpace c) t"
  from assms have eq: "replaceClass (\<lambda>c. c = dquote) [dquote, dquote] ?kept = t"
    by (simp only: cleanText_Some)
  have "count_list ?kept dquote = count_list t dquote"
    by (induction t) (simp_all add: isPrintableAscii_dquote)
  moreover have "count_list t dquote = 2 * count_list ?kept dquote"
    using count_replaceClass_dquote [of ?kept] by (simp only: eq)
  ultimately have "count_list t dquote = 0"
    by simp
  then have none: "dquote \<notin> set t"
    by (simp add: count_list_0_iff)
  then have "\<forall>c \<in> set ?kept. \<not> c = dquote"
    by auto
  then have "replaceClass (\<lambda>c. c = dquote) [dquote, dquote] ?kept = ?kept"
    by (rule replaceClass_none)
  with eq have "?kept = t"
    by simp
  then have "\<forall>c \<in> set t. isPrintableAscii c \<or> isWhiteSpace c"
    by (simp only: filter_id_conv)
  with none show ?thesis
    by (auto simp: list_all_iff)
qed

text \<open>
  Claim C6, as stated, fails: the markdown field of the entry for the body of issue 42
  has every double quote of the raw text doubled.
\<close>

theorem markdown_unchanged_counterexample:
  "\<not> isl (buildEntry (sampleEnv outOfOrder) issue42 initial bodyItem42)
   \<and> item_text bodyItem42 = Some (js ''Fix the \"bug\"'')
   \<and> markdown (fst (projr (buildEntry (sampleEnv outOfOrder) issue42 initial bodyItem42)))
     = js ''Fix the \"\"bug\"\"''
   \<and> Some (markdown (fst (projr (buildEntry (sampleEnv outOfOrder) issue42 initial bodyItem42))))
     \<noteq> item_text bodyItem42
   \<and> map_sum id (map ir_markdown \<circ> issues_data_csv) (processIssues (sampleEnv outOfOrder) [issue42])
     = Inr [js ''Fix the \"\"bug\"\"'']"
  by code_simp

text \<open>
  Claim C6, amended. The markdown field of an entry is \<^verbatim>\<open>cleanText\<close> of the raw text of
  its item: the raw text without the code units outside printable ASCII and whitespace
  and with every double quote doubled, and the empty string for a missing text. It is the
  raw text itself if and only if that text holds only printable ASCII and whitespace and
  no double quote. After a run that ends, every row of both tables has its markdown
  column from a Conversation Item of the run in this way.
\<close>

theorem markdown_is_cleanText:
  "(buildEntry (env :: 'n env) issue st item = Inr (e, st') \<longrightarrow>
      markdown e = cleanText (item_text item))
   \<and> (buildEntry env issue st item = Inr (e, st') \<and> item_text item = Some t
       \<and> list_all (\<lambda>c. (isPrintableAscii c \<or> isWhiteSpace c) \<and> c \<noteq> dquote) t \<longrightarrow>
      markdown e = t)
   \<and> (buildEntry env issue st item = Inr (e, st') \<and> item_text item = Some t
       \<and> markdown e = t \<longrightarrow>
      list_all (\<lambda>c. (isPrintableAscii c \<or> isWhiteSpace c) \<and> c \<noteq> dquote) t)
   \<and> (buildEntry env issue st item = Inr (e, st') \<and> item_text item = None \<longrightarrow>
      markdown e = [])
   \<and> (processIssues env data = Inr out \<longrightarrow>
      (\<forall>r \<in> set (issues_data_csv out). \<exists>item \<in> set (relatedItems env data).
          ir_id r = item_id item \<and> ir_markdown r = cleanText (item_text item))
      \<and> (\<forall>r \<in> set (comments_data_csv out). \<exists>item \<in> set (relatedItems env data).
          cr_id r = item_id item \<and> cr_markdown r = cleanText (item_text item)))"
proof -
  have one: "markdown e = cleanText (item_text item)"
    if "buildEntry env issue st item = Inr (e, st')"
    using buildEntry_Inr(1) [OF that] by (simp add: derived_def)
  have same: "markdown e = t"
    if "buildEntry env issue st item = Inr (e, st')" and "item_text item = Some t"
      and "list_all (\<lambda>c. (isPrintableAscii c \<or> isWhiteSpace c) \<and> c \<noteq> dquote) t"
    using one [OF that(1)] that(2) cleanText_unchanged [OF that(3)] by simp
  have only: "list_all (\<lambda>c. (isPrintableAscii c \<or> isWhiteSpace c) \<and> c \<noteq> dquote) t"
    if "buildEntry env issue st item = Inr (e, st')" and "item_text item = Some t"
      and "markdown e = t"
  proof -
    from one [OF that(1)] that(2,3) have "cleanText (Some t) = t"
      by simp
    then show ?thesis
      by (rule cleanText_changed)
  qed
  have missing: "markdown e = []"
    if "buildEntry env issue st item = Inr (e, st')" and "item_text item = None"
    using one [OF that(1)] that(2) by (simp add: cleanText_def)
  have rows: "(\<forall>r \<in> set (issues_data_csv out). \<exists>item \<in> set (relatedItems env data).
          ir_id r = item_id item \<and> ir_markdown r = cleanText (item_text item))
      \<and> (\<forall>r \<in> set (comments_data_csv out). \<exists>item \<in> set (relatedItems env data).
          cr_id r = item_id item \<and> cr_markdown r = cleanText (item_text item))"
    if "processIssues env data = Inr out"
  proof -
    from that obtain s :: "'n state"
      where i: "issues_data_csv out = saveIssuesToCsv env (issueDataList s)"
      and c: "comments_data_csv out = saveCommentsToCsv env (commentDataList s)"
      and fi: "fromItems env (relatedItems env data) (issueDataList s)"
      and fc: "fromItems env (relatedItems env data) (commentDataList s)"
      by (rule processIssues_fromItems)
    have a: "\<exists>item \<in> set (relatedItems env data).
          ir_id r = item_id item \<and> ir_markdown r = cleanText (item_text item)"
      if "r \<in> set (issues_data_csv out)" for r
    proof -
      from that obtain x where x: "x \<in> set (issueDataList s)" and f: "ir_id r = entry_id x"
        "ir_markdown r = markdown x"
        unfolding i by (rule issueRow_entry)
      from fi x obtain item where "item \<in> set (relatedItems env data)" and "derived env item x"
        unfolding fromItems_def by blast
      with f show ?thesis
        unfolding derived_def by auto
    qed
    have b: "\<exists>item \<in> set (relatedItems env data).
          cr_id r = item_id item \<and> cr_markdown r = cleanText (item_text item)"
      if "r \<in> set (comments_data_csv out)" for r
    proof -
      from that obtain x where x: "x \<in> set (commentDataList s)" and f: "cr_id r = entry_id x"
        "cr_markdown r = markdown x"
        unfolding c by (rule commentRow_entry)
      from fc x obtain item where "item \<in> set (relatedItems env data)" and "derived env item x"
        unfolding fromItems_def by blast
      with f show ?thesis
        unfolding derived_def by auto
    qed
    from a b show ?thesis
      by blast
  qed
  from one same only missing rows show ?thesis
    by blast
qed

lemma sample_build_prComment:
  "\<not> isl (buildEntry (sampleEnv outOfOrder) issue42 initial prComment50)
   \<and> item_text prComment50 = Some (js ''lgtm'')
   \<and> list_all (\<lambda>c. (isPrintableAscii c \<or> isWhiteSpace c) \<and> c \<noteq> dquote) (js ''lgtm'')"
  by code_simp

lemma sample_build_dirty:
  "\<not> isl (buildEntry (sampleEnv outOfOrder) issue42 initial bodyItem42)
   \<and> item_text bodyItem42 = Some (js ''Fix the \"bug\"'')
   \<and> \<not> list_all (\<lambda>c. (isPrintableAscii c \<or> isWhiteSpace c) \<and> c \<noteq> dquote) (js ''Fix the \"bug\"'')"
  by code_simp

theorem markdown_is_cleanText_witness:
  "\<not> isl (buildEntry (sampleEnv outOfOrder) issue42 initial prComment50)
   \<and> item_text prComment50 = Some (js ''lgtm'')
   \<and> list_all (\<lambda>c. (isPrintableAscii c \<or> isWhiteSpace c) \<and> c \<noteq> dquote) (js ''lgtm'')
   \<and> markdown (fst (projr (buildEntry (sampleEnv outOfOrder) issue42 initial prComment50)))
     = js ''lgtm''
   \<and> \<not> isl (buildEntry (sampleEnv outOfOrder) issue42 initial bodyItem42)
   \<and> item_text bodyItem42 = Some (js ''Fix the \"bug\"'')
   \<and> \<not> list_all (\<lambda>c. (isPrintableAscii c \<or> isWhiteSpace c) \<and> c \<noteq> dquote) (js ''Fix the \"bug\"'')
   \<and> markdown (fst (projr (buildEntry (sampleEnv outOfOrder) issue42 initial bodyItem42)))
     \<noteq> js ''Fix the \"bug\"''"
proof -
  have b: "buildEntry (sampleEnv outOfOrder) issue42 initial prComment50
      = Inr (fst (projr (buildEntry (sampleEnv outOfOrder) issue42 initial prComment50)),
             snd (projr (buildEntry (sampleEnv outOfOrder) issue42 initial prComment50)))"
    using sample_build_prComment [THEN conjunct1] by (rule Inr_projr_pair)
  from markdown_is_cleanText
    [of "sampleEnv outOfOrder" issue42 initial prComment50
        "fst (projr (buildEntry (sampleEnv outOfOrder) issue42 initial prComment50))"
        "snd (projr (buildEntry (sampleEnv outOfOrder) issue42 initial prComment50))"
        "js ''lgtm''"] b sample_build_prComment
  have clean: "markdown (fst (projr (buildEntry (sampleEnv outOfOrder) issue42 initial prComment50)))
     = js ''lgtm''"
    by blast
  have d: "buildEntry (sampleEnv outOfOrder) issue42 initial bodyItem42
      = Inr (fst (projr (buildEntry (sampleEnv outOfOrder) issue42 initial bodyItem42)),
             snd (projr (buildEntry (sampleEnv outOfOrder) issue42 initial bodyItem42)))"
    using sample_build_dirty [THEN conjunct1] by (rule Inr_projr_pair)
  from markdown_is_cleanText
    [of "sampleEnv outOfOrder" issue42 initial bodyItem42
        "fst (projr (buildEntry (sampleEnv outOfOrder) issue42 initial bodyItem42))"
        "snd (projr (buildEntry (sampleEnv outOfOrder) issue42 initial bodyItem42))"
        "js ''Fix the \"bug\"''"] d sample_build_dirty
  have dirty: "markdown (fst (projr (buildEntry (sampleEnv outOfOrder) issue42 initial bodyItem42)))
     \<noteq> js ''Fix the \"bug\"''"
    by blast
  from clean dirty sample_build_prComment sample_build_dirty show ?thesis
    by (simp only: simp_thms)
qed

subsection \<open>Seed issues without a body\<close>

lemma processLoop_skip:
  assumes "\<not> truthy (body issue)"
  shows "processLoop env st (issue # data)
    = processLoop env
        (st\<lparr>console := console st @ [Processing (number issue), Skipping (number issue)]\<rparr>) data"
  by (simp only: processLoop.simps processIssue_skip [OF assms] sum.case)

lemma processIssues_single_skip:
  assumes "\<not> truthy (body issue)"
  shows "processIssues (env :: 'n env) [issue]
    = Inr \<lparr>issues_data_csv = [], comments_data_csv = [],
           stdout = [Processing (number issue), Skipping (number issue),
                     SavedIssues (js ''issues_data.csv''), SavedComments (js ''comments_data.csv'')]\<rparr>"
proof -
  have "processLoop env initial [issue]
      = Inr ((initial :: 'n state)\<lparr>console := console (initial :: 'n state)
               @ [Processing (number issue), Skipping (number issue)]\<rparr>)"
    by (simp only: processLoop.simps processIssue_skip [OF assms] sum.case)
  then show ?thesis
    by (simp add: processIssues_def initial_def saveIssuesToCsv_def saveCommentsToCsv_def)
qed

subsection \<open>The author id\<close>

lemma buildEntry_eq:
  assumes "extractEmbeddings env (cleanMarkdown env (item_text item)) = Inr v"
  shows "buildEntry env issue st item
    = Inr (\<lparr>entry_id = item_id item,
             plaintext = cleanText (Some (cleanMarkdown env (item_text item))),
             embedding = v,
             author_id = fst (fetchAuthorId env (item_userLogin item) (console st)),
             created_at = now env (ticks st),
             modified_at = now env (Suc (ticks st)),
             markdown = cleanText (item_text item),
             entry_issue_id = node_id issue,
             entry_payload = item_payload item\<rparr>,
           st\<lparr>console := snd (fetchAuthorId env (item_userLogin item) (console st)),
              ticks := Suc (Suc (ticks st))\<rparr>)"
  using assms by (simp add: buildEntry_def Let_def split: prod.splits)

lemma buildEntry_author:
  assumes "buildEntry env issue st item = Inr (e, st')"
  shows "author_id e = fst (fetchAuthorId env (item_userLogin item) (console st))"
    and "console st' = snd (fetchAuthorId env (item_userLogin item) (console st))"
proof -
  from assms obtain v where v: "extractEmbeddings env (cleanMarkdown env (item_text item)) = Inr v"
    by (cases "extractEmbeddings env (cleanMarkdown env (item_text item))")
      (simp_all add: buildEntry_def Let_def)
  from assms have "(e, st') = (\<lparr>entry_id = item_id item,
             plaintext = cleanText (Some (cleanMarkdown env (item_text item))),
             embedding = v,
             author_id = fst (fetchAuthorId env (item_userLogin item) (console st)),
             created_at = now env (ticks st),
             modified_at = now env (Suc (ticks st)),
             markdown = cleanText (item_text item),
             entry_issue_id = node_id issue,
             entry_payload = item_payload item\<rparr>,
           st\<lparr>console := snd (fetchAuthorId env (item_userLogin item) (console st)),
              ticks := Suc (Suc (ticks st))\<rparr>)"
    by (simp only: buildEntry_eq [OF v] sum.inject)
  then have e: "e = \<lparr>entry_id = item_id item,
             plaintext = cleanText (Some (cleanMarkdown env (item_text item))),
             embedding = v,
             author_id = fst (fetchAuthorId env (item_userLogin item) (console st)),
             created_at = now env (ticks st),
             modified_at = now env (Suc (ticks st)),
             markdown = cleanText (item_text item),
             entry_issue_id = node_id issue,
             entry_payload = item_payload item\<rparr>"
    and s: "st' = st\<lparr>console := snd (fetchAuthorId env (item_userLogin item) (console st)),
              ticks := Suc (Suc (ticks st))\<rparr>"
    by (simp_all only: prod.inject)
  show "author_id e = fst (fetchAuthorId env (item_userLogin item) (console st))"
    unfolding e by (simp only: entry.select_convs)
  show "console st' = snd (fetchAuthorId env (item_userLogin item) (console st))"
    unfolding s by simp
qed

lemma processItem_total:
  assumes "extractEmbeddings env (cleanMarkdown env (item_text item)) = Inr v"
  shows "\<not> isl (buildEntry env issue st item)" and "\<not> isl (processItem env issue st item)"
  by (simp_all only: processItem_def buildEntry_eq [OF assms] sum.case prod.case sum.disc simp_thms)

text \<open>
  Claim C8. \<^verbatim>\<open>fetchAuthorId\<close> gives the id that the user lookup answers; when the lookup
  is rejected it writes the error to the console and gives \<open>-1\<close>. It has no failing
  result, so an entry is built whenever the embedding is there, with the author id
  \<open>-1\<close> and the line on the console when the lookup was rejected, and the item is
  processed.
\<close>

theorem fetchAuthorId_sentinel:
  "(users_get env login = Inr i \<longrightarrow> fetchAuthorId env login con = (i, con))
   \<and> (users_get env login = Inl err \<longrightarrow>
        fetchAuthorId env login con = (- 1, con @ [ErrorFetchingAuthorId login err]))
   \<and> (extractEmbeddings env (cleanMarkdown env (item_text item)) = Inr v \<longrightarrow>
        \<not> isl (buildEntry env issue st item) \<and> \<not> isl (processItem env issue st item))
   \<and> (users_get env (item_userLogin item) = Inl err'
       \<and> buildEntry env issue st item = Inr (e, st') \<longrightarrow>
        author_id e = - 1
        \<and> console st' = console st @ [ErrorFetchingAuthorId (item_userLogin item) err'])"
proof -
  have a: "fetchAuthorId env login con = (i, con)" if "users_get env login = Inr i"
    using that by (simp add: fetchAuthorId_def)
  have b: "fetchAuthorId env login con = (- 1, con @ [ErrorFetchingAuthorId login err])"
    if "users_get env login = Inl err"
    using that by (simp add: fetchAuthorId_def)
  have c: "\<not> isl (buildEntry env issue st item) \<and> \<not> isl (processItem env issue st item)"
    if "extractEmbeddings env (cleanMarkdown env (item_text item)) = Inr v"
    using processItem_total [OF that] by simp
  have d: "author_id e = - 1
        \<and> console st' = console st @ [ErrorFetchingAuthorId (item_userLogin item) err']"
    if "users_get env (item_userLogin item) = Inl err'"
      and "buildEntry env issue st item = Inr (e, st')"
    using buildEntry_author [OF that(2)] that(1) by (simp add: fetchAuthorId_def)
  from a b c d show ?thesis
    by blast
qed

lemma sample_author:
  "users_get (sampleEnv outOfOrder) (js ''carol'') = Inl (Error (js ''404''))
   \<and> users_get (sampleEnv outOfOrder) (js ''alice'') = Inr 11
   \<and> item_userLogin prItem50 = js ''carol''
   \<and> \<not> isl (buildEntry (sampleEnv outOfOrder) issue42 initial prItem50)
   \<and> console (initial :: nat state) = []"
  by code_simp

theorem fetchAuthorId_sentinel_witness:
  "users_get (sampleEnv outOfOrder) (js ''alice'') = Inr 11
   \<and> fetchAuthorId (sampleEnv outOfOrder) (js ''alice'') [] = (11, [])
   \<and> users_get (sampleEnv outOfOrder) (js ''carol'') = Inl (Error (js ''404''))
   \<and> fetchAuthorId (sampleEnv outOfOrder) (js ''carol'') []
     = (- 1, [ErrorFetchingAuthorId (js ''carol'') (Error (js ''404''))])
   \<and> \<not> isl (buildEntry (sampleEnv outOfOrder) issue42 initial prItem50)
   \<and> author_id (fst (projr (buildEntry (sampleEnv outOfOrder) issue42 initial prItem50))) = - 1
   \<and> console (snd (projr (buildEntry (sampleEnv outOfOrder) issue42 initial prItem50)))
     = [ErrorFetchingAuthorId (js ''carol'') (Error (js ''404''))]"
proof -
  have al: "users_get (sampleEnv outOfOrder) (js ''alice'') = Inr 11"
    and ca: "users_get (sampleEnv outOfOrder) (js ''carol'') = Inl (Error (js ''404''))"
    and lg: "item_userLogin prItem50 = js ''carol''"
    and ok: "\<not> isl (buildEntry (sampleEnv outOfOrder) issue42 initial prItem50)"
    and co: "console (initial :: nat state) = []"
    using sample_author by blast+
  have b: "buildEntry (sampleEnv outOfOrder) issue42 initial prItem50
      = Inr (fst (projr (buildEntry (sampleEnv outOfOrder) issue42 initial prItem50)),
             snd (projr (buildEntry (sampleEnv outOfOrder) issue42 initial prItem50)))"
    using ok by (rule Inr_projr_pair)
  from fetchAuthorId_sentinel [of "sampleEnv outOfOrder" "js ''alice''" 11 "[]"] al
  have f1: "fetchAuthorId (sampleEnv outOfOrder) (js ''alice'') [] = (11, [])"
    by blast
  from fetchAuthorId_sentinel [of "sampleEnv outOfOrder" "js ''carol''" _ "[]" "Error (js ''404'')"] ca
  have f2: "fetchAuthorId (sampleEnv outOfOrder) (js ''carol'') []
     = (- 1, [] @ [ErrorFetchingAuthorId (js ''carol'') (Error (js ''404''))])"
    by blast
  from fetchAuthorId_sentinel
    [of "sampleEnv outOfOrder" _ _ _ _ prItem50 _ issue42 initial "Error (js ''404'')"
        "fst (projr (buildEntry (sampleEnv outOfOrder) issue42 initial prItem50))"
        "snd (projr (buildEntry (sampleEnv outOfOrder) issue42 initial prItem50))"]
    b ca [folded lg]
  have f3: "author_id (fst (projr (buildEntry (sampleEnv outOfOrder) issue42 initial prItem50))) = - 1
     \<and> console (snd (projr (buildEntry (sampleEnv outOfOrder) issue42 initial prItem50)))
       = console (initial :: nat state) @ [ErrorFetchingAuthorId (item_userLogin prItem50) (Error (js ''404''))]"
    by blast
  from al ca ok f1 f2 f3 show ?thesis
    unfolding lg co by (simp only: append_Nil simp_thms)
qed

subsection \<open>Empty embedding vectors\<close>





lemma route_new:
  assumes "\<not> seen st (item_id item)"
  shows "hasMarker (item_id item) \<Longrightarrow>
           commentDataList (route st item e) = commentDataList st @ [e]
           \<and> issueDataList (route st item e) = issueDataList st"
    and "\<not> hasMarker (item_id item) \<Longrightarrow>
           issueDataList (route st item e) = issueDataList st @ [e]
           \<and> commentDataList (route st item e) = commentDataList st"
  using assms by (simp_all add: route_def seen_def)




subsection \<open>The console decides nothing\<close>

lemma withoutConsole_console: "withoutConsole (st\<lparr>console := c\<rparr>) = withoutConsole st"
  by (simp add: withoutConsole_def)

lemma withoutConsole_fields:
  "issueDataList (withoutConsole st) = issueDataList st"
  "commentDataList (withoutConsole st) = commentDataList st"
  "issueIds (withoutConsole st) = issueIds st"
  "commentIds (withoutConsole st) = commentIds st"
  "ticks (withoutConsole st) = ticks st"
  by (simp_all add: withoutConsole_def)

lemma fetchAuthorId_fst: "fst (fetchAuthorId env l con) = fst (fetchAuthorId env l [])"
  by (simp add: fetchAuthorId_def split: sum.splits)

lemma map_sum_eq_cases:
  assumes "map_sum id f x = map_sum id f y"
  obtains (stops) e where "x = Inl e" and "y = Inl e"
    | (goes) a b where "x = Inr a" and "y = Inr b" and "f a = f b"
  using assms by (cases x; cases y) simp_all

lemma route_withoutConsole: "withoutConsole (route st item e) = route (withoutConsole st) item e"
  by (simp add: route_def withoutConsole_def)

lemma buildEntry_withoutConsole:
  "map_sum id (map_prod id withoutConsole) (buildEntry env issue (withoutConsole st) item)
   = map_sum id (map_prod id withoutConsole) (buildEntry env issue st item)"
proof (cases "extractEmbeddings env (cleanMarkdown env (item_text item))")
  case (Inl e)
  then show ?thesis
    by (simp add: buildEntry_def Let_def)
next
  case (Inr v)
  have a: "fst (fetchAuthorId env (item_userLogin item) (console (withoutConsole st)))
      = fst (fetchAuthorId env (item_userLogin item) (console st))"
    using fetchAuthorId_fst [of env "item_userLogin item" "console st"]
      fetchAuthorId_fst [of env "item_userLogin item" "console (withoutConsole st)"]
    by simp
  show ?thesis
    unfolding buildEntry_eq [OF Inr] a
    by (simp add: withoutConsole_fields) (simp add: withoutConsole_def)
qed

lemma processItem_withoutConsole:
  "map_sum id withoutConsole (processItem env issue (withoutConsole st) item)
   = map_sum id withoutConsole (processItem env issue st item)"
  using buildEntry_withoutConsole [of env issue st item]
proof (cases rule: map_sum_eq_cases)
  case (stops e)
  then show ?thesis
    by (simp add: processItem_def)
next
  case (goes a b)
  obtain e1 s1 where a: "a = (e1, s1)"
    by (cases a)
  obtain e2 s2 where b: "b = (e2, s2)"
    by (cases b)
  from goes(3) a b have e: "e1 = e2" and s: "withoutConsole s1 = withoutConsole s2"
    by simp_all
  have "withoutConsole (route s1 item e1) = withoutConsole (route s2 item e2)"
    by (simp only: route_withoutConsole e s)
  with goes(1,2) a b show ?thesis
    by (simp add: processItem_def)
qed

lemma processItem_same:
  assumes "withoutConsole s = withoutConsole t"
  shows "map_sum id withoutConsole (processItem env issue s item)
    = map_sum id withoutConsole (processItem env issue t item)"
  using processItem_withoutConsole [of env issue s item]
    processItem_withoutConsole [of env issue t item] assms
  by simp

lemma processItems_same:
  "withoutConsole s = withoutConsole t \<Longrightarrow>
     map_sum id withoutConsole (processItems env issue s items)
     = map_sum id withoutConsole (processItems env issue t items)"
proof (induction items arbitrary: s t)
  case Nil
  then show ?case by simp
next
  case (Cons item items)
  from processItem_same [OF Cons.prems, of env issue item] show ?case
  proof (cases rule: map_sum_eq_cases)
    case (stops e)
    then show ?thesis by simp
  next
    case (goes a b)
    with Cons.IH [OF goes(3)] show ?thesis by simp
  qed
qed

lemma processIssue_same:
  assumes "withoutConsole s = withoutConsole t"
  shows "map_sum id withoutConsole (processIssue env s issue)
    = map_sum id withoutConsole (processIssue env t issue)"
proof (cases "truthy (body issue)")
  case False
  with assms show ?thesis
    by (simp only: processIssue_skip [OF False] map_sum.simps withoutConsole_console)
next
  case True
  show ?thesis
  proof (cases "fetchAllRelatedData env issue")
    case (Inl e)
    then show ?thesis
      by (simp add: processIssue_run [OF True])
  next
    case (Inr p)
    obtain a b where p: "p = (a, b)"
      by (cases p)
    from assms
    have "withoutConsole (s\<lparr>console := console s @ [Processing (number issue)]\<rparr>)
        = withoutConsole (t\<lparr>console := console t @ [Processing (number issue)]\<rparr>)"
      by (simp only: withoutConsole_console)
    from processItems_same [OF this, of env issue "a @ b"] Inr p show ?thesis
      by (simp add: processIssue_run [OF True])
  qed
qed

lemma processLoop_same:
  "withoutConsole s = withoutConsole t \<Longrightarrow>
     map_sum id withoutConsole (processLoop env s data)
     = map_sum id withoutConsole (processLoop env t data)"
proof (induction data arbitrary: s t)
  case Nil
  then show ?case by simp
next
  case (Cons issue data)
  from processIssue_same [OF Cons.prems, of env issue] show ?case
  proof (cases rule: map_sum_eq_cases)
    case (stops e)
    then show ?thesis by simp
  next
    case (goes a b)
    with Cons.IH [OF goes(3)] show ?thesis by simp
  qed
qed

lemma processLoop_append:
  "processLoop env st (xs @ ys)
   = (case processLoop env st xs of Inl e \<Rightarrow> Inl e | Inr st' \<Rightarrow> processLoop env st' ys)"
  by (induction xs arbitrary: st) (simp_all split: sum.splits)

lemma tables_processIssues:
  "tables (processIssues env data)
   = map_sum id (\<lambda>st. (saveIssuesToCsv env (issueDataList st), saveCommentsToCsv env (commentDataList st)))
       (map_sum id withoutConsole (processLoop env initial data))"
  by (cases "processLoop env initial data")
    (simp_all add: tables_def processIssues_def withoutConsole_fields)

lemma tables_skip:
  assumes "\<not> truthy (body issue)"
  shows "tables (processIssues env (pre @ issue # post)) = tables (processIssues env (pre @ post))"
proof -
  have "map_sum id withoutConsole (processLoop env initial (pre @ issue # post))
      = map_sum id withoutConsole (processLoop env initial (pre @ post))"
  proof (cases "processLoop env initial pre")
    case (Inl e)
    then show ?thesis
      by (simp add: processLoop_append)
  next
    case (Inr s)
    have "withoutConsole (s\<lparr>console := console s @ [Processing (number issue), Skipping (number issue)]\<rparr>)
        = withoutConsole s"
      by (rule withoutConsole_console)
    from processLoop_same [OF this, of env post] show ?thesis
      by (simp only: processLoop_append Inr sum.case processLoop_skip [OF assms])
  qed
  then show ?thesis
    by (simp only: tables_processIssues)
qed

text \<open>
  Claim C7. A seed issue whose body is missing or the empty string is skipped: the body
  of the outer loop ends, whatever the environment answers, with the state it started
  from and two more lines on the console, so no external call decides it; the loop goes
  on with the next issue from that state; the issue adds no Conversation Item; a run on
  this issue alone writes two tables without rows; and a run on a list with this issue in
  it writes the tables, or ends with the error, of the run on the list without it.
\<close>

theorem empty_body_skipped:
  "\<not> truthy (body issue) \<longrightarrow>
     processIssue env st issue
       = Inr (st\<lparr>console := console st @ [Processing (number issue), Skipping (number issue)]\<rparr>)
     \<and> processLoop env st (issue # data)
       = processLoop env
           (st\<lparr>console := console st @ [Processing (number issue), Skipping (number issue)]\<rparr>) data
     \<and> relatedItems env (issue # data) = relatedItems env data
     \<and> processIssues env [issue]
       = Inr \<lparr>issues_data_csv = [], comments_data_csv = [],
              stdout = [Processing (number issue), Skipping (number issue),
                        SavedIssues (js ''issues_data.csv''), SavedComments (js ''comments_data.csv'')]\<rparr>
     \<and> tables (processIssues env (pre @ issue # post)) = tables (processIssues env (pre @ post))"
proof
  assume f: "\<not> truthy (body issue)"
  have "relatedItems env (issue # data) = relatedItems env data"
    by (simp only: relatedItems_Cons [of env issue data] relatedItems_single_skip [OF f] append_Nil)
  with processIssue_skip [OF f, of env st] processLoop_skip [OF f, of env st data]
    processIssues_single_skip [OF f, of env] tables_skip [OF f, of env pre post]
  show "processIssue env st issue
       = Inr (st\<lparr>console := console st @ [Processing (number issue), Skipping (number issue)]\<rparr>)
     \<and> processLoop env st (issue # data)
       = processLoop env
           (st\<lparr>console := console st @ [Processing (number issue), Skipping (number issue)]\<rparr>) data
     \<and> relatedItems env (issue # data) = relatedItems env data
     \<and> processIssues env [issue]
       = Inr \<lparr>issues_data_csv = [], comments_data_csv = [],
              stdout = [Processing (number issue), Skipping (number issue),
                        SavedIssues (js ''issues_data.csv''), SavedComments (js ''comments_data.csv'')]\<rparr>
     \<and> tables (processIssues env (pre @ issue # post)) = tables (processIssues env (pre @ post))"
    by (simp only: simp_thms)
qed

lemma sample_skip:
  "\<not> truthy (body issue43) \<and> number issue43 = 43 \<and> isl (processIssues failingEnv [issue42])"
  by code_simp

theorem empty_body_skipped_witness:
  "\<not> truthy (body issue43)
   \<and> processIssues failingEnv [issue43]
     = Inr \<lparr>issues_data_csv = [], comments_data_csv = [],
            stdout = [Processing 43, Skipping 43,
                      SavedIssues (js ''issues_data.csv''), SavedComments (js ''comments_data.csv'')]\<rparr>
   \<and> isl (processIssues failingEnv [issue42])
   \<and> tables (processIssues (sampleEnv outOfOrder) [issue42, issue43, issue44])
     = tables (processIssues (sampleEnv outOfOrder) [issue42, issue44])"
proof -
  have f: "\<not> truthy (body issue43)" and n: "number issue43 = 43"
    and g: "isl (processIssues failingEnv [issue42])"
    using sample_skip by blast+
  from empty_body_skipped [of issue43 failingEnv initial "[]"] f
  have "processIssues failingEnv [issue43]
     = Inr \<lparr>issues_data_csv = [], comments_data_csv = [],
            stdout = [Processing (number issue43), Skipping (number issue43),
                      SavedIssues (js ''issues_data.csv''), SavedComments (js ''comments_data.csv'')]\<rparr>"
    by blast
  moreover from empty_body_skipped [of issue43 "sampleEnv outOfOrder" initial "[]" "[issue42]" "[issue44]"] f
  have "tables (processIssues (sampleEnv outOfOrder) ([issue42] @ issue43 # [issue44]))
     = tables (processIssues (sampleEnv outOfOrder) ([issue42] @ [issue44]))"
    by blast
  ultimately show ?thesis
    using f g unfolding n by (simp only: append.simps simp_thms)
qed

subsection \<open>First occurrence wins\<close>

lemma firstOccurrences_Nil: "firstOccurrences [] = []"
  by (simp add: firstOccurrences_def)

lemma firstOccurrences_snoc:
  "firstOccurrences (xs @ [x]) = (if x \<in> set xs then firstOccurrences xs else firstOccurrences xs @ [x])"
  by (simp add: firstOccurrences_def)

lemma set_firstOccurrences: "set (firstOccurrences xs) = set xs"
  by (simp add: firstOccurrences_def)

lemma distinct_firstOccurrences: "distinct (firstOccurrences xs)"
  by (simp add: firstOccurrences_def)

lemma firstItem_snoc:
  "firstItem i (xs @ [x])
   = (case firstItem i xs of Some a \<Rightarrow> Some a | None \<Rightarrow> if item_id x = i then Some x else None)"
  unfolding firstItem_def by (induction xs) simp_all

lemma firstItem_None: "firstItem i xs = None \<longleftrightarrow> i \<notin> set (map item_id xs)"
  unfolding firstItem_def by (auto simp: find_None_iff)

lemma tablesFrom_initial: "tablesFrom env [] initial"
  by (simp add: tablesFrom_def initial_def firstOccurrences_Nil)

lemma tablesFrom_console: "tablesFrom env visited (st\<lparr>console := c\<rparr>) = tablesFrom env visited st"
  by (simp add: tablesFrom_def)

lemma derived_keeps:
  assumes "list_all (\<lambda>e. case firstItem (entry_id e) visited of
                          None \<Rightarrow> False | Some item \<Rightarrow> derived env item e) es"
  shows "list_all (\<lambda>e. case firstItem (entry_id e) (visited @ [x]) of
                          None \<Rightarrow> False | Some item \<Rightarrow> derived env item e) es"
  using assms unfolding list_all_iff
  by (auto simp: firstItem_snoc split: option.splits)

lemma processItem_tablesFrom:
  assumes t: "tablesFrom env visited st" and p: "processItem env issue st x = Inr st'"
  shows "tablesFrom env (visited @ [x]) st'"
proof -
  from p obtain e st1 where b: "buildEntry env issue st x = Inr (e, st1)"
    and r: "st' = route st1 x e"
    by (rule processItem_Inr)
  have d: "derived env x e"
    using buildEntry_Inr(1) [OF b] .
  then have id: "entry_id e = item_id x"
    by (simp add: derived_def)
  note same = buildEntry_Inr(3-6) [OF b]
  from t have il: "map entry_id (issueDataList st1)
        = firstOccurrences (filter (\<lambda>i. \<not> hasMarker i) (map item_id visited))"
    and cl: "map entry_id (commentDataList st1)
        = firstOccurrences (filter hasMarker (map item_id visited))"
    and iset: "issueIds st1 = set (filter (\<lambda>i. \<not> hasMarker i) (map item_id visited))"
    and cset: "commentIds st1 = set (filter hasMarker (map item_id visited))"
    and dv: "list_all (\<lambda>e. case firstItem (entry_id e) visited of
                          None \<Rightarrow> False | Some item \<Rightarrow> derived env item e)
          (issueDataList st1 @ commentDataList st1)"
    by (simp_all add: tablesFrom_def same)
  note dv' = derived_keeps [OF dv, of x]
  show ?thesis
  proof (cases "seen st1 (item_id x)")
    case True
    then have "st' = st1"
      by (simp add: r route_skip)
    with il cl iset cset dv' True show ?thesis
      by (auto simp: tablesFrom_def firstOccurrences_snoc seen_def split: if_splits)
  next
    case False
    note unseen = False
    have new: "firstItem (entry_id e) (visited @ [x]) = Some x"
    proof -
      from unseen iset cset have "item_id x \<notin> set (map item_id visited)"
        by (auto simp: seen_def split: if_splits)
      then have "firstItem (item_id x) visited = None"
        using firstItem_None [of "item_id x" visited] by blast
      then show ?thesis
        by (simp add: firstItem_snoc id)
    qed
    show ?thesis
    proof (cases "hasMarker (item_id x)")
      case True
      from route_new(1) [OF unseen True, of e] r
      have l: "commentDataList st' = commentDataList st1 @ [e]" "issueDataList st' = issueDataList st1"
        by simp_all
      from unseen True r have s: "commentIds st' = insert (item_id x) (commentIds st1)"
        "issueIds st' = issueIds st1"
        by (simp_all add: route_def seen_def)
      from unseen True cset have nin: "item_id x \<notin> set (filter hasMarker (map item_id visited))"
        by (simp add: seen_def)
      from il cl iset cset dv' new d l s True nin show ?thesis
        by (simp add: tablesFrom_def firstOccurrences_snoc id)
    next
      case False
      from route_new(2) [OF unseen False, of e] r
      have l: "issueDataList st' = issueDataList st1 @ [e]" "commentDataList st' = commentDataList st1"
        by simp_all
      from unseen False r have s: "issueIds st' = insert (item_id x) (issueIds st1)"
        "commentIds st' = commentIds st1"
        by (simp_all add: route_def seen_def)
      from unseen False iset
      have nin: "item_id x \<notin> set (filter (\<lambda>i. \<not> hasMarker i) (map item_id visited))"
        by (simp add: seen_def)
      from il cl iset cset dv' new d l s False nin show ?thesis
        by (simp add: tablesFrom_def firstOccurrences_snoc id)
    qed
  qed
qed

lemma processItems_tablesFrom:
  "tablesFrom env visited st \<Longrightarrow> processItems env issue st xs = Inr st' \<Longrightarrow>
     tablesFrom env (visited @ xs) st'"
proof (induction xs arbitrary: visited st)
  case Nil
  then show ?case by simp
next
  case (Cons x xs)
  from Cons.prems(2) obtain st1 where s1: "processItem env issue st x = Inr st1"
    and s2: "processItems env issue st1 xs = Inr st'"
    by (auto split: sum.splits)
  from Cons.IH [OF processItem_tablesFrom [OF Cons.prems(1) s1] s2] show ?case
    by simp
qed

lemma processIssue_tablesFrom:
  assumes "tablesFrom env visited st" and "processIssue env st issue = Inr st'"
  shows "tablesFrom env (visited @ relatedItems env [issue]) st'"
  using assms(2)
proof (cases rule: processIssue_cases)
  case skip
  with assms(1) show ?thesis
    by (simp add: relatedItems_single_skip tablesFrom_console)
next
  case (run allRelatedData appended)
  from assms(1)
  have "tablesFrom env visited (st\<lparr>console := console st @ [Processing (number issue)]\<rparr>)"
    by (simp only: tablesFrom_console)
  from processItems_tablesFrom [OF this run(3)] show ?thesis
    by (simp only: relatedItems_single_run [OF run(1,2)])
qed

lemma processLoop_tablesFrom:
  "tablesFrom env visited st \<Longrightarrow> processLoop env st data = Inr st' \<Longrightarrow>
     tablesFrom env (visited @ relatedItems env data) st'"
proof (induction data arbitrary: visited st)
  case Nil
  then show ?case by (simp add: relatedItems_def)
next
  case (Cons issue data)
  from Cons.prems(2) obtain st1 where s1: "processIssue env st issue = Inr st1"
    and s2: "processLoop env st1 data = Inr st'"
    by (auto split: sum.splits)
  from Cons.IH [OF processIssue_tablesFrom [OF Cons.prems(1) s1] s2] show ?case
    by (simp add: relatedItems_Cons [of env issue data])
qed

lemma tablesFrom_run:
  assumes "processIssues (env :: 'n env) data = Inr out"
  obtains st :: "'n state" where "issues_data_csv out = saveIssuesToCsv env (issueDataList st)"
    and "comments_data_csv out = saveCommentsToCsv env (commentDataList st)"
    and "tablesFrom env (relatedItems env data) st"
proof -
  from assms obtain st where l: "processLoop env initial data = Inr st"
    and i: "issues_data_csv out = saveIssuesToCsv env (issueDataList st)"
    and c: "comments_data_csv out = saveCommentsToCsv env (commentDataList st)"
    by (rule processIssues_Inr)
  from processLoop_tablesFrom [OF tablesFrom_initial l]
  have "tablesFrom env (relatedItems env data) st"
    by simp
  with i c show ?thesis
    by (rule that)
qed

lemma tablesFrom_entry:
  assumes "tablesFrom env visited st"
    and "x \<in> set (issueDataList st) \<or> x \<in> set (commentDataList st)"
  obtains item where "firstItem (entry_id x) visited = Some item" and "derived env item x"
proof -
  from assms have "case firstItem (entry_id x) visited of
      None \<Rightarrow> False | Some item \<Rightarrow> derived env item x"
    unfolding tablesFrom_def list_all_iff by auto
  then show ?thesis
    by (cases "firstItem (entry_id x) visited") (simp_all add: that)
qed

lemma processItem_unseen:
  assumes n: "\<not> seen st (item_id a)" and p: "processItem env issue st a = Inr st1"
  shows "\<exists>e. derived env a e
      \<and> (if hasMarker (item_id a)
         then commentDataList st1 = commentDataList st @ [e] \<and> issueDataList st1 = issueDataList st
            \<and> commentIds st1 = insert (item_id a) (commentIds st) \<and> issueIds st1 = issueIds st
         else issueDataList st1 = issueDataList st @ [e] \<and> commentDataList st1 = commentDataList st
            \<and> issueIds st1 = insert (item_id a) (issueIds st) \<and> commentIds st1 = commentIds st)"
proof -
  from p obtain e st' where b: "buildEntry env issue st a = Inr (e, st')"
    and r: "st1 = route st' a e"
    by (rule processItem_Inr)
  have d: "derived env a e"
    using buildEntry_Inr(1) [OF b] .
  note same = buildEntry_Inr(3-6) [OF b]
  from n have n': "\<not> seen st' (item_id a)"
    by (simp add: seen_build [OF b])
  have "if hasMarker (item_id a)
         then commentDataList st1 = commentDataList st @ [e] \<and> issueDataList st1 = issueDataList st
            \<and> commentIds st1 = insert (item_id a) (commentIds st) \<and> issueIds st1 = issueIds st
         else issueDataList st1 = issueDataList st @ [e] \<and> commentDataList st1 = commentDataList st
            \<and> issueIds st1 = insert (item_id a) (issueIds st) \<and> commentIds st1 = commentIds st"
  proof (cases "hasMarker (item_id a)")
    case True
    with n' have "item_id a \<notin> commentIds st'"
      by (simp add: seen_def)
    with True show ?thesis
      by (simp add: r route_def same)
  next
    case False
    with n' have "item_id a \<notin> issueIds st'"
      by (simp add: seen_def)
    with False show ?thesis
      by (simp add: r route_def same)
  qed
  with d show ?thesis
    by blast
qed

text \<open>
  Claim C2. No identifier is twice in a table of a run, and the first occurrence wins:
  the identifiers of a table are those of the Conversation Items of the run that the
  table's marker selects, each once, in the order of their first occurrences, and every
  row has its text columns and its embedding from the first item with the row's
  identifier. Step by step: an item whose identifier is not seen adds exactly the entry
  built from it at the end of the table that its marker selects, and its identifier to
  that table's set; an item that has been processed leaves its identifier seen; a seen
  identifier stays seen while further items are processed; and an item whose identifier
  is seen changes neither the tables nor the sets.
\<close>

theorem dedup_first_wins:
  "(processIssues (env :: 'n env) data = Inr out \<longrightarrow>
      distinct (map ir_id (issues_data_csv out)) \<and> distinct (map cr_id (comments_data_csv out))
      \<and> map ir_id (issues_data_csv out)
        = firstOccurrences (filter (\<lambda>i. \<not> hasMarker i) (map item_id (relatedItems env data)))
      \<and> map cr_id (comments_data_csv out)
        = firstOccurrences (filter hasMarker (map item_id (relatedItems env data)))
      \<and> (\<forall>r \<in> set (issues_data_csv out). \<exists>item v.
            firstItem (ir_id r) (relatedItems env data) = Some item
            \<and> ir_plaintext r = cleanText (Some (cleanMarkdown env (item_text item)))
            \<and> ir_markdown r = cleanText (item_text item)
            \<and> extractEmbeddings env (cleanMarkdown env (item_text item)) = Inr v
            \<and> ir_embedding r = formatEmbedding (numberToString env) v)
      \<and> (\<forall>r \<in> set (comments_data_csv out). \<exists>item v.
            firstItem (cr_id r) (relatedItems env data) = Some item
            \<and> cr_plaintext r = cleanText (Some (cleanMarkdown env (item_text item)))
            \<and> cr_markdown r = cleanText (item_text item)
            \<and> extractEmbeddings env (cleanMarkdown env (item_text item)) = Inr v
            \<and> cr_embedding r = formatEmbedding (numberToString env) v))
   \<and> (processItem env issue st a = Inr st1 \<longrightarrow>
      seen st1 (item_id a)
      \<and> (\<exists>es. issueDataList st1 = issueDataList st @ es)
      \<and> (\<exists>es. commentDataList st1 = commentDataList st @ es))
   \<and> (\<not> seen st (item_id a) \<and> processItem env issue st a = Inr st1 \<longrightarrow>
      (\<exists>e. derived env a e
        \<and> (if hasMarker (item_id a)
           then commentDataList st1 = commentDataList st @ [e] \<and> issueDataList st1 = issueDataList st
              \<and> commentIds st1 = insert (item_id a) (commentIds st) \<and> issueIds st1 = issueIds st
           else issueDataList st1 = issueDataList st @ [e] \<and> commentDataList st1 = commentDataList st
              \<and> issueIds st1 = insert (item_id a) (issueIds st) \<and> commentIds st1 = commentIds st)))
   \<and> (processItems env issue st1 items = Inr st2 \<and> seen st1 i \<longrightarrow> seen st2 i)
   \<and> (seen st2 (item_id b) \<and> processItem env issue' st2 b = Inr st3 \<longrightarrow>
      issueDataList st3 = issueDataList st2 \<and> commentDataList st3 = commentDataList st2
      \<and> issueIds st3 = issueIds st2 \<and> commentIds st3 = commentIds st2)"
proof -
  have run: "distinct (map ir_id (issues_data_csv out)) \<and> distinct (map cr_id (comments_data_csv out))
      \<and> map ir_id (issues_data_csv out)
        = firstOccurrences (filter (\<lambda>i. \<not> hasMarker i) (map item_id (relatedItems env data)))
      \<and> map cr_id (comments_data_csv out)
        = firstOccurrences (filter hasMarker (map item_id (relatedItems env data)))
      \<and> (\<forall>r \<in> set (issues_data_csv out). \<exists>item v.
            firstItem (ir_id r) (relatedItems env data) = Some item
            \<and> ir_plaintext r = cleanText (Some (cleanMarkdown env (item_text item)))
            \<and> ir_markdown r = cleanText (item_text item)
            \<and> extractEmbeddings env (cleanMarkdown env (item_text item)) = Inr v
            \<and> ir_embedding r = formatEmbedding (numberToString env) v)
      \<and> (\<forall>r \<in> set (comments_data_csv out). \<exists>item v.
            firstItem (cr_id r) (relatedItems env data) = Some item
            \<and> cr_plaintext r = cleanText (Some (cleanMarkdown env (item_text item)))
            \<and> cr_markdown r = cleanText (item_text item)
            \<and> extractEmbeddings env (cleanMarkdown env (item_text item)) = Inr v
            \<and> cr_embedding r = formatEmbedding (numberToString env) v)"
    if "processIssues env data = Inr out"
  proof -
    from that obtain s :: "'n state"
      where i: "issues_data_csv out = saveIssuesToCsv env (issueDataList s)"
      and c: "comments_data_csv out = saveCommentsToCsv env (commentDataList s)"
      and t: "tablesFrom env (relatedItems env data) s"
      by (rule tablesFrom_run)
    from t have ii: "map ir_id (issues_data_csv out)
        = firstOccurrences (filter (\<lambda>i. \<not> hasMarker i) (map item_id (relatedItems env data)))"
      and cc: "map cr_id (comments_data_csv out)
        = firstOccurrences (filter hasMarker (map item_id (relatedItems env data)))"
      by (simp_all add: i c ids_saveIssuesToCsv ids_saveCommentsToCsv tablesFrom_def)
    have di: "distinct (map ir_id (issues_data_csv out))"
      and dc: "distinct (map cr_id (comments_data_csv out))"
      unfolding ii cc by (rule distinct_firstOccurrences)+
    have ri: "\<exists>item v.
            firstItem (ir_id r) (relatedItems env data) = Some item
            \<and> ir_plaintext r = cleanText (Some (cleanMarkdown env (item_text item)))
            \<and> ir_markdown r = cleanText (item_text item)
            \<and> extractEmbeddings env (cleanMarkdown env (item_text item)) = Inr v
            \<and> ir_embedding r = formatEmbedding (numberToString env) v"
      if "r \<in> set (issues_data_csv out)" for r
    proof -
      from that obtain x where x: "x \<in> set (issueDataList s)" and f: "ir_id r = entry_id x"
        "ir_plaintext r = plaintext x"
        "ir_embedding r = formatEmbedding (numberToString env) (embedding x)"
        "ir_markdown r = markdown x"
        unfolding i by (rule issueRow_entry)
      from x have "x \<in> set (issueDataList s) \<or> x \<in> set (commentDataList s)"
        by simp
      with t obtain item where "firstItem (entry_id x) (relatedItems env data) = Some item"
        and "derived env item x"
        by (rule tablesFrom_entry)
      with f show ?thesis
        unfolding derived_def by auto
    qed
    have rc: "\<exists>item v.
            firstItem (cr_id r) (relatedItems env data) = Some item
            \<and> cr_plaintext r = cleanText (Some (cleanMarkdown env (item_text item)))
            \<and> cr_markdown r = cleanText (item_text item)
            \<and> extractEmbeddings env (cleanMarkdown env (item_text item)) = Inr v
            \<and> cr_embedding r = formatEmbedding (numberToString env) v"
      if "r \<in> set (comments_data_csv out)" for r
    proof -
      from that obtain x where x: "x \<in> set (commentDataList s)" and f: "cr_id r = entry_id x"
        "cr_plaintext r = plaintext x"
        "cr_embedding r = formatEmbedding (numberToString env) (embedding x)"
        "cr_markdown r = markdown x"
        unfolding c by (rule commentRow_entry)
      from x have "x \<in> set (issueDataList s) \<or> x \<in> set (commentDataList s)"
        by simp
      with t obtain item where "firstItem (entry_id x) (relatedItems env data) = Some item"
        and "derived env item x"
        by (rule tablesFrom_entry)
      with f show ?thesis
        unfolding derived_def by auto
    qed
    from di dc ii cc ri rc show ?thesis
      by blast
  qed
  have first: "seen st1 (item_id a)
      \<and> (\<exists>es. issueDataList st1 = issueDataList st @ es)
      \<and> (\<exists>es. commentDataList st1 = commentDataList st @ es)"
    if "processItem env issue st a = Inr st1"
  proof -
    from that obtain e st' where b: "buildEntry env issue st a = Inr (e, st')"
      and r: "st1 = route st' a e"
      by (rule processItem_Inr)
    from route_append [of st' a e] buildEntry_Inr(3,4) [OF b] r
    have "(\<exists>es. issueDataList st1 = issueDataList st @ es)
      \<and> (\<exists>es. commentDataList st1 = commentDataList st @ es)"
      by simp
    with processItem_seen(1) [OF that] show ?thesis
      by simp
  qed
  have later: "issueDataList st3 = issueDataList st2 \<and> commentDataList st3 = commentDataList st2
      \<and> issueIds st3 = issueIds st2 \<and> commentIds st3 = commentIds st2"
    if s: "seen st2 (item_id b)" and p: "processItem env issue' st2 b = Inr st3"
  proof -
    from p obtain e st' where b: "buildEntry env issue' st2 b = Inr (e, st')"
      and r: "st3 = route st' b e"
      by (rule processItem_Inr)
    from s have "seen st' (item_id b)"
      by (simp add: seen_build [OF b])
    then have "st3 = st'"
      by (simp add: r route_skip)
    with buildEntry_Inr(3-6) [OF b] show ?thesis
      by simp
  qed
  from run first later processItems_seen_mono processItem_unseen [of st a env issue st1]
  show ?thesis
    by blast
qed

theorem dedup_first_wins_witness:
  "\<not> isl (processIssues (sampleEnv outOfOrder) [issue42, issue43, issue44])
   \<and> distinct (map cr_id (comments_data_csv (projr (processIssues (sampleEnv outOfOrder) [issue42, issue43, issue44]))))
   \<and> distinct (map ir_id (issues_data_csv (projr (processIssues (sampleEnv outOfOrder) [issue42, issue43, issue44]))))
   \<and> map item_id (relatedItems (sampleEnv outOfOrder) [issue42, issue43, issue44])
     = [js ''I_1'', js ''IC_b'', js ''PR_x'', js ''IC_c'', js ''PRRC_d'', js ''IC_a'',
        js ''I_3'', js ''PR_x'', js ''IC_c'', js ''PRRC_d'']
   \<and> map cr_id (comments_data_csv (projr (processIssues (sampleEnv outOfOrder) [issue42, issue43, issue44])))
     = [js ''IC_b'', js ''PR_x'', js ''IC_c'', js ''PRRC_d'', js ''IC_a'']
   \<and> firstOccurrences (filter hasMarker
        (map item_id (relatedItems (sampleEnv outOfOrder) [issue42, issue43, issue44])))
     = [js ''IC_b'', js ''PR_x'', js ''IC_c'', js ''PRRC_d'', js ''IC_a'']
   \<and> firstOccurrences (filter (\<lambda>i. \<not> hasMarker i)
        (map item_id (relatedItems (sampleEnv outOfOrder) [issue42, issue43, issue44])))
     = [js ''I_1'', js ''I_3'']"
proof -
  obtain out where run: "processIssues (sampleEnv outOfOrder) [issue42, issue43, issue44] = Inr out"
    and i: "map ir_id (issues_data_csv out) = [js ''I_1'', js ''I_3'']"
    and c: "map cr_id (comments_data_csv out)
         = [js ''IC_b'', js ''PR_x'', js ''IC_c'', js ''PRRC_d'', js ''IC_a'']"
    by (rule sample_run)
  from dedup_first_wins [of "sampleEnv outOfOrder" "[issue42, issue43, issue44]" out] run
  have "distinct (map ir_id (issues_data_csv out))"
    and "distinct (map cr_id (comments_data_csv out))"
    and "map ir_id (issues_data_csv out)
        = firstOccurrences (filter (\<lambda>i. \<not> hasMarker i)
            (map item_id (relatedItems (sampleEnv outOfOrder) [issue42, issue43, issue44])))"
    and "map cr_id (comments_data_csv out)
        = firstOccurrences (filter hasMarker
            (map item_id (relatedItems (sampleEnv outOfOrder) [issue42, issue43, issue44])))"
    by blast+
  with i c sample_related show ?thesis
    unfolding run by (simp only: sum.sel sum.disc simp_thms)
qed

end
